theory Spec2Isabelle
  imports Main "HOL-Library.Word" "HOL-Library.Char_ord" "HOL-Library.List_Lexorder"
    "HOL-Library.Multiset"
begin

section \<open>Byte views\<close>

text \<open>
  A Go string is an immutable sequence of bytes and a \<open>[]byte\<close> is a mutable one; a
  \<^typ>\<open>char\<close> is one byte, so both are modelled as \<^typ>\<open>string\<close>. A nil slice is
  \<open>None\<close>. Go's \<open>int\<close> and \<open>int64\<close> are modelled as \<^typ>\<open>int\<close>: every value
  below is a length of data held in memory or a sum of such lengths.
\<close>

datatype error = EOF | ErrorString string

record ByteView =
  b :: "string option"
  s :: string

definition Len :: "ByteView \<Rightarrow> int" where
  "Len v = (case b v of Some bs \<Rightarrow> int (length bs) | None \<Rightarrow> int (length (s v)))"

text \<open>The bytes a view exposes, whichever of the two fields holds them.\<close>

definition view_bytes :: "ByteView \<Rightarrow> string" where
  "view_bytes v = (case b v of Some bs \<Rightarrow> bs | None \<Rightarrow> s v)"

text \<open>
  \<open>x[from:]\<close> panics unless \<open>0 \<le> from \<le> len(x)\<close>; the panic is \<open>None\<close>.
\<close>

definition SliceFrom :: "ByteView \<Rightarrow> int \<Rightarrow> ByteView option" where
  "SliceFrom v from =
     (case b v of
        Some bs \<Rightarrow>
          (if 0 \<le> from \<and> from \<le> int (length bs)
           then Some \<lparr>b = Some (drop (nat from) bs), s = []\<rparr> else None)
      | None \<Rightarrow>
          (if 0 \<le> from \<and> from \<le> int (length (s v))
           then Some \<lparr>b = None, s = drop (nat from) (s v)\<rparr> else None))"

text \<open>
  The builtin \<open>copy(dst, src)\<close> overwrites the first \<open>min(len(dst), len(src))\<close> bytes of
  \<open>dst\<close> and returns that count.
\<close>

definition go_copy :: "string \<Rightarrow> string \<Rightarrow> string \<times> int" where
  "go_copy dst src =
     (let n = min (length dst) (length src)
      in (take n src @ drop n dst, int n))"

definition Copy :: "ByteView \<Rightarrow> string \<Rightarrow> string \<times> int" where
  "Copy v dest = (case b v of Some bs \<Rightarrow> go_copy dest bs | None \<Rightarrow> go_copy dest (s v))"

text \<open>
  \<open>ReadAt\<close> returns the buffer as it leaves it, the count and the error (\<open>None\<close> is
  Go's nil error). The outer \<open>option\<close> is \<open>None\<close> when the slicing would panic.
\<close>

definition ReadAt :: "ByteView \<Rightarrow> string \<Rightarrow> int \<Rightarrow> (string \<times> int \<times> error option) option" where
  "ReadAt v p off =
     (if off < 0 then Some (p, 0, Some (ErrorString ''view: invalid offset''))
      else if off \<ge> Len v then Some (p, 0, Some EOF)
      else (case SliceFrom v off of
              None \<Rightarrow> None
            | Some v' \<Rightarrow>
                (let (p', n) = Copy v' p
                 in Some (p', n, if n < int (length p) then Some EOF else None))))"

section \<open>The LRU cache (package lru)\<close>

text \<open>
  \<open>lru.Cache\<close> keeps a doubly linked list of elements and a map from key to list
  element. Both refer to the same element objects, so the model has an explicit store:
  an element is an address, \<open>elems\<close> maps an address to the entry \<open>(key, value)\<close> it
  holds, \<open>ll\<close> is the list of addresses from front (most recent) to back (oldest) and
  \<open>cache\<close> maps a key to an address. \<open>nextElem\<close> is the address the next
  \<open>PushFront\<close> allocates. A nil map is \<open>None\<close>. Keys are strings and values byte
  views, as the group uses the cache.

  \<open>OnEvicted\<close> is a closure over state of its owner; the model passes that state
  (\<open>'st\<close>) through every operation that can call it.
\<close>

record 'st lru_Cache =
  MaxEntries :: int
  OnEvicted :: "(string \<Rightarrow> ByteView \<Rightarrow> 'st \<Rightarrow> 'st) option"
  ll :: "nat list"
  cache :: "(string \<rightharpoonup> nat) option"
  elems :: "nat \<rightharpoonup> (string \<times> ByteView)"
  nextElem :: nat

text \<open>The operations of \<open>container/list\<close> the cache uses, on a list of addresses.\<close>

definition MoveToFront :: "nat \<Rightarrow> nat list \<Rightarrow> nat list" where
  "MoveToFront e l = (if e \<in> set l then e # remove1 e l else l)"

definition Back :: "nat list \<Rightarrow> nat option" where
  "Back l = (if l = [] then None else Some (last l))"

definition lru_removeElement :: "'st lru_Cache \<Rightarrow> nat \<Rightarrow> 'st \<Rightarrow> 'st lru_Cache \<times> 'st" where
  "lru_removeElement c e st =
     (let c1 = c\<lparr>ll := remove1 e (ll c)\<rparr>
      in case elems c1 e of
           None \<Rightarrow> (c1, st)
         | Some (k, v) \<Rightarrow>
             (c1\<lparr>cache := map_option (\<lambda>m. m(k := None)) (cache c1)\<rparr>,
              case OnEvicted c1 of None \<Rightarrow> st | Some f \<Rightarrow> f k v st))"

definition lru_RemoveOldest :: "'st lru_Cache \<Rightarrow> 'st \<Rightarrow> 'st lru_Cache \<times> 'st" where
  "lru_RemoveOldest c st =
     (case cache c of
        None \<Rightarrow> (c, st)
      | Some m \<Rightarrow>
          (case Back (ll c) of
             Some ele \<Rightarrow> lru_removeElement c ele st
           | None \<Rightarrow> (c, st)))"

definition lru_Add :: "'st lru_Cache \<Rightarrow> string \<Rightarrow> ByteView \<Rightarrow> 'st \<Rightarrow> 'st lru_Cache \<times> 'st" where
  "lru_Add c0 key val st =
     (let c = (if cache c0 = None then c0\<lparr>cache := Some Map.empty, ll := []\<rparr> else c0)
      in case cache c of
           None \<Rightarrow> (c, st)
         | Some m \<Rightarrow>
             (case m key of
                Some ee \<Rightarrow>
                  (c\<lparr>ll := MoveToFront ee (ll c),
                     elems := (elems c)(ee := map_option (\<lambda>(k, _). (k, val)) (elems c ee))\<rparr>,
                   st)
              | None \<Rightarrow>
                  (let ele = nextElem c;
                       c1 = c\<lparr>nextElem := Suc ele,
                               elems := (elems c)(ele \<mapsto> (key, val)),
                               ll := ele # ll c,
                               cache := Some (m(key \<mapsto> ele))\<rparr>
                   in if MaxEntries c1 \<noteq> 0 \<and> int (length (ll c1)) > MaxEntries c1
                      then lru_RemoveOldest c1 st
                      else (c1, st))))"

definition lru_Get :: "'st lru_Cache \<Rightarrow> string \<Rightarrow> 'st lru_Cache \<times> ByteView option" where
  "lru_Get c key =
     (case cache c of
        None \<Rightarrow> (c, None)
      | Some m \<Rightarrow>
          (case m key of
             Some ele \<Rightarrow> (c\<lparr>ll := MoveToFront ele (ll c)\<rparr>, map_option snd (elems c ele))
           | None \<Rightarrow> (c, None)))"

definition lru_Len :: "'st lru_Cache \<Rightarrow> int" where
  "lru_Len c = (case cache c of None \<Rightarrow> 0 | Some m \<Rightarrow> int (length (ll c)))"

text \<open>The entries of the recency list, front first.\<close>

definition entries :: "'st lru_Cache \<Rightarrow> (string \<times> ByteView) list" where
  "entries c = (case cache c of None \<Rightarrow> [] | Some m \<Rightarrow> List.map_filter (elems c) (ll c))"

section \<open>The cache segments of a group (type cache in groupcache.go)\<close>

text \<open>
  The wrapper counts the bytes of all keys and values. Its eviction callback changes the
  fields \<open>nbytes\<close> and \<open>nevict\<close> of the wrapper, so the state the callback works on is
  that pair. A nil \<open>*lru.Cache\<close> is \<open>None\<close>.
\<close>

record gcache =
  nbytes :: int
  lru :: "(int \<times> int) lru_Cache option"
  nhit :: int
  nget :: int
  nevict :: int
  cacheName :: string

definition onEvicted :: "string \<Rightarrow> ByteView \<Rightarrow> int \<times> int \<Rightarrow> int \<times> int" where
  "onEvicted key val st = (fst st - (int (length key) + Len val), snd st + 1)"

definition cache_add :: "gcache \<Rightarrow> string \<Rightarrow> ByteView \<Rightarrow> gcache" where
  "cache_add c key val =
     (let l0 = (case lru c of
                  None \<Rightarrow> \<lparr>MaxEntries = 0, OnEvicted = Some onEvicted, ll = [],
                            cache = None, elems = Map.empty, nextElem = 0\<rparr>
                | Some l \<Rightarrow> l);
          (l1, st) = lru_Add l0 key val (nbytes c, nevict c)
      in c\<lparr>lru := Some l1, nbytes := fst st + (int (length key) + Len val),
            nevict := snd st\<rparr>)"

definition cache_get :: "gcache \<Rightarrow> string \<Rightarrow> gcache \<times> ByteView option" where
  "cache_get c0 key =
     (let c = c0\<lparr>nget := nget c0 + 1\<rparr>
      in case lru c of
           None \<Rightarrow> (c, None)
         | Some l \<Rightarrow>
             (let (l1, vi) = lru_Get l key
              in case vi of
                   None \<Rightarrow> (c\<lparr>lru := Some l1\<rparr>, None)
                 | Some v \<Rightarrow> (c\<lparr>lru := Some l1, nhit := nhit c + 1\<rparr>, Some v)))"

definition cache_removeOldest :: "gcache \<Rightarrow> gcache" where
  "cache_removeOldest c =
     (case lru c of
        None \<Rightarrow> c
      | Some l \<Rightarrow>
          (let (l1, st) = lru_RemoveOldest l (nbytes c, nevict c)
           in c\<lparr>lru := Some l1, nbytes := fst st, nevict := snd st\<rparr>))"

definition cache_bytes :: "gcache \<Rightarrow> int" where
  "cache_bytes c = nbytes c"

definition cache_entries :: "gcache \<Rightarrow> (string \<times> ByteView) list" where
  "cache_entries c = (case lru c of None \<Rightarrow> [] | Some l \<Rightarrow> entries l)"

definition entry_size :: "string \<times> ByteView \<Rightarrow> int" where
  "entry_size e = int (length (fst e)) + Len (snd e)"

section \<open>The table of known peers (package peermanager)\<close>

text \<open>
  A \<open>time.Time\<close> and a \<open>time.Duration\<close> are numbers of nanoseconds. The table is a Go
  map from the groupcache address of a peer to its entry. The mutex and the pool that the
  store updates are left out.
\<close>

record PeerEntry =
  GroupcacheAddress :: string
  ApiAddress :: string
  LastSeen :: int

record PeerStore =
  peers :: "string \<rightharpoonup> PeerEntry"
  selfApiAddr :: string
  selfGroupcacheAddr :: string
  initialPeerApiAddrs :: "string list"
  lastSetGroupcachePeers :: "string list"
  peerTimeoutDuration :: int

text \<open>
  The body of the loop of \<open>GetLivePeerGroupcacheAddrsAndPrune\<close> for the address
  \<open>addr\<close>, on the variables \<open>livePeers\<close>, \<open>updatedInternalPeersMap\<close> and
  \<open>removedCount\<close>. \<open>now addr\<close> is what the clock shows when \<open>time.Since\<close> is called for
  this address.
\<close>

definition prune_step ::
  "PeerStore \<Rightarrow> (string \<Rightarrow> int) \<Rightarrow> string
     \<Rightarrow> string list \<times> (string \<rightharpoonup> PeerEntry) \<times> int
     \<Rightarrow> string list \<times> (string \<rightharpoonup> PeerEntry) \<times> int" where
  "prune_step ps now addr acc =
     (case acc of (livePeers, updatedInternalPeersMap, removedCount) \<Rightarrow>
        (case peers ps addr of
           None \<Rightarrow> acc
         | Some entry \<Rightarrow>
             if addr = selfGroupcacheAddr ps
             then (livePeers, updatedInternalPeersMap(addr \<mapsto> entry), removedCount)
             else if now addr - LastSeen entry < peerTimeoutDuration ps
                  then (livePeers @ [addr], updatedInternalPeersMap(addr \<mapsto> entry), removedCount)
                  else (livePeers, updatedInternalPeersMap, removedCount + 1)))"

text \<open>
  \<open>range\<close> visits the keys of a Go map once each, in an order that is not specified:
  \<open>order\<close> is the order of this run. \<open>sort.Strings\<close> sorts by bytes, as the order on
  \<^typ>\<open>string\<close> does.
\<close>

definition GetLivePeerGroupcacheAddrsAndPrune ::
  "PeerStore \<Rightarrow> (string \<Rightarrow> int) \<Rightarrow> string list \<Rightarrow> PeerStore \<times> string list" where
  "GetLivePeerGroupcacheAddrsAndPrune ps now order =
     (case fold (prune_step ps now) order ([], Map.empty, 0) of
        (livePeers, updatedInternalPeersMap, removedCount) \<Rightarrow>
          (ps\<lparr>peers := updatedInternalPeersMap\<rparr>, sort livePeers))"

text \<open>The entry of the address is in the table and \<open>time.Since\<close> of it is below the timeout.\<close>

definition is_fresh :: "PeerStore \<Rightarrow> (string \<Rightarrow> int) \<Rightarrow> string \<Rightarrow> bool" where
  "is_fresh ps now addr \<longleftrightarrow>
     (case peers ps addr of
        None \<Rightarrow> False
      | Some e \<Rightarrow> now addr - LastSeen e < peerTimeoutDuration ps)"

text \<open>A clock that shows the same time \<open>t\<close> at every call.\<close>

definition at_time :: "int \<Rightarrow> string \<Rightarrow> int" where
  "at_time t addr = t"

text \<open>A store for the worked example: this peer and one other, last seen at time 0.\<close>

definition example_store :: PeerStore where
  "example_store =
     \<lparr>peers = [''me'' \<mapsto> \<lparr>GroupcacheAddress = ''me'', ApiAddress = ''me-api'', LastSeen = 0\<rparr>,
               ''p'' \<mapsto> \<lparr>GroupcacheAddress = ''p'', ApiAddress = ''p-api'', LastSeen = 0\<rparr>],
      selfApiAddr = ''me-api'', selfGroupcacheAddr = ''me'', initialPeerApiAddrs = [],
      lastSetGroupcachePeers = [], peerTimeoutDuration = 15\<rparr>"

section \<open>Duplicate call suppression (package singleflight)\<close>

text \<open>
  A \<open>call\<close> holds the counter of its wait group and the result of \<open>fn\<close>. The map of
  the group holds pointers to calls, and callers keep such a pointer after the key has
  left the map, so calls live in a store \<open>calls\<close> indexed by address; \<open>nextCall\<close> is the
  address \<open>new(call)\<close> returns next. A nil map is \<open>None\<close>, a nil \<open>interface{}\<close> result is
  \<open>None\<close>.
\<close>

record 'v call =
  call_wg :: int
  call_val :: "'v option"
  call_err :: "error option"

record 'v flight_Group =
  flight_m :: "(string \<rightharpoonup> nat) option"
  calls :: "nat \<rightharpoonup> 'v call"
  nextCall :: nat

text \<open>
  \<open>Do\<close> as one caller runs it with no other caller active. \<open>fn\<close> works on state \<open>'st\<close>
  of its owner and may itself not return. The result is \<open>None\<close> when the caller does
  not return: \<open>fn\<close> does not, or the key is in the map with a wait group that nobody
  else will release.
\<close>

definition Do_seq ::
  "'v flight_Group \<Rightarrow> string \<Rightarrow> ('st \<Rightarrow> (('v option \<times> error option) \<times> 'st) option) \<Rightarrow> 'st
     \<Rightarrow> (('v option \<times> error option) \<times> 'v flight_Group \<times> 'st) option" where
  "Do_seq g0 key fn st =
     (let mp = (case flight_m g0 of None \<Rightarrow> Map.empty | Some mp \<Rightarrow> mp);
          g = g0\<lparr>flight_m := Some mp\<rparr>
      in case mp key of
           Some c \<Rightarrow>
             (case calls g c of
                None \<Rightarrow> None
              | Some cl \<Rightarrow>
                  if call_wg cl = 0 then Some ((call_val cl, call_err cl), g, st) else None)
         | None \<Rightarrow>
             (let c = nextCall g;
                  g1 = g\<lparr>nextCall := Suc c,
                         calls := (calls g)(c \<mapsto> \<lparr>call_wg = 1, call_val = None, call_err = None\<rparr>),
                         flight_m := Some (mp(key \<mapsto> c))\<rparr>
              in case fn st of
                   None \<Rightarrow> None
                 | Some (r, st1) \<Rightarrow>
                     (let g2 = g1\<lparr>calls := (calls g1)(c \<mapsto>
                                   \<lparr>call_wg = 1, call_val = fst r, call_err = snd r\<rparr>)\<rparr>;
                          g3 = g2\<lparr>calls := (calls g2)(c \<mapsto>
                                   \<lparr>call_wg = 0, call_val = fst r, call_err = snd r\<rparr>)\<rparr>;
                          g4 = g3\<lparr>flight_m := map_option (\<lambda>mp. mp(key := None)) (flight_m g3)\<rparr>
                      in Some (r, g4, st1))))"

subsection \<open>Callers that run together\<close>

text \<open>
  Several callers run \<open>Do\<close> at once; their steps interleave. A step is a stretch of
  \<open>Do\<close> that the others cannot divide: a critical section of the mutex, the run of
  \<open>fn\<close> with the assignment of its result to the call, \<open>c.wg.Done()\<close>, or the return
  from \<open>c.wg.Wait()\<close>, which is possible only when the counter is 0. The position of a
  caller says which step comes next and which call \<open>c\<close> it holds:

  \<^item> \<open>Start\<close>: before the first critical section;
  \<^item> \<open>Waiting c\<close>: the key was in the map, the caller is at \<open>c.wg.Wait()\<close>;
  \<^item> \<open>Running c\<close>: the caller has put the new call \<open>c\<close> into the map and runs \<open>fn\<close> next;
  \<^item> \<open>Finishing c\<close>: \<open>fn\<close> has returned into \<open>c\<close>, \<open>c.wg.Done()\<close> comes next;
  \<^item> \<open>Deleting c\<close>: the second critical section, which deletes the key, comes next;
  \<^item> \<open>Returned c v e\<close>: \<open>Do\<close> has returned \<open>(v, e)\<close>, read from the call \<open>c\<close>.

  Caller \<open>t\<close> calls \<open>Do(key_of t, fn t)\<close>. What \<open>fn\<close> returns may differ from run to run:
  \<open>fn t n\<close> is the result when \<open>n\<close> runs of \<open>fn\<close> came before. The system has two fields
  that the program does not have: \<open>owner\<close> maps a call to the caller that made it, and
  \<open>runs\<close> lists the runs of \<open>fn\<close> so far, oldest first, as pairs of caller and call.
\<close>

datatype 'v pc =
  Start | Waiting nat | Running nat | Finishing nat | Deleting nat
  | Returned nat "'v option" "error option"

record 'v flight_sys =
  grp :: "'v flight_Group"
  pcs :: "nat \<Rightarrow> 'v pc"
  owner :: "nat \<rightharpoonup> nat"
  runs :: "(nat \<times> nat) list"


text \<open>The step of caller \<open>t\<close>; \<open>None\<close> when \<open>t\<close> has returned or has to wait.\<close>

definition step ::
  "(nat \<Rightarrow> string) \<Rightarrow> (nat \<Rightarrow> nat \<Rightarrow> 'v option \<times> error option) \<Rightarrow> nat
     \<Rightarrow> 'v flight_sys \<Rightarrow> 'v flight_sys option" where
  "step key_of fn t st =
     (let g = grp st
      in case pcs st t of
           Start \<Rightarrow>
             (let mp = (case flight_m g of None \<Rightarrow> Map.empty | Some mp \<Rightarrow> mp)
              in case mp (key_of t) of
                   Some c \<Rightarrow>
                     Some (st\<lparr>grp := g\<lparr>flight_m := Some mp\<rparr>, pcs := (pcs st)(t := Waiting c)\<rparr>)
                 | None \<Rightarrow>
                     (let c = nextCall g
                      in Some (st\<lparr>grp := g\<lparr>nextCall := Suc c,
                                         calls := (calls g)(c \<mapsto>
                                            \<lparr>call_wg = 1, call_val = None, call_err = None\<rparr>),
                                         flight_m := Some (mp(key_of t \<mapsto> c))\<rparr>,
                                  pcs := (pcs st)(t := Running c),
                                  owner := (owner st)(c \<mapsto> t)\<rparr>)))
         | Waiting c \<Rightarrow>
             (case calls g c of
                None \<Rightarrow> None
              | Some cl \<Rightarrow>
                  if call_wg cl = 0
                  then Some (st\<lparr>pcs := (pcs st)(t := Returned c (call_val cl) (call_err cl))\<rparr>)
                  else None)
         | Running c \<Rightarrow>
             (case calls g c of
                None \<Rightarrow> None
              | Some cl \<Rightarrow>
                  (let r = fn t (length (runs st))
                   in Some (st\<lparr>grp := g\<lparr>calls := (calls g)(c \<mapsto>
                                         cl\<lparr>call_val := fst r, call_err := snd r\<rparr>)\<rparr>,
                               pcs := (pcs st)(t := Finishing c),
                               runs := runs st @ [(t, c)]\<rparr>)))
         | Finishing c \<Rightarrow>
             (case calls g c of
                None \<Rightarrow> None
              | Some cl \<Rightarrow>
                  Some (st\<lparr>grp := g\<lparr>calls := (calls g)(c \<mapsto> cl\<lparr>call_wg := call_wg cl - 1\<rparr>)\<rparr>,
                          pcs := (pcs st)(t := Deleting c)\<rparr>))
         | Deleting c \<Rightarrow>
             (case calls g c of
                None \<Rightarrow> None
              | Some cl \<Rightarrow>
                  Some (st\<lparr>grp := g\<lparr>flight_m :=
                                    map_option (\<lambda>mp. mp(key_of t := None)) (flight_m g)\<rparr>,
                          pcs := (pcs st)(t := Returned c (call_val cl) (call_err cl))\<rparr>))
         | Returned c v e \<Rightarrow> None)"

text \<open>A schedule is the list of the callers that take the steps, in order.\<close>

fun run ::
  "(nat \<Rightarrow> string) \<Rightarrow> (nat \<Rightarrow> nat \<Rightarrow> 'v option \<times> error option) \<Rightarrow> nat list
     \<Rightarrow> 'v flight_sys \<Rightarrow> 'v flight_sys option" where
  "run key_of fn [] st = Some st"
| "run key_of fn (t # ts) st =
     (case step key_of fn t st of None \<Rightarrow> None | Some st1 \<Rightarrow> run key_of fn ts st1)"









section \<open>Sinks, getters and peers\<close>

text \<open>
  \<open>Sink\<close> is an interface: a record of its methods over the state \<open>'s\<close> of the sink
  behind it. Each method returns its error and the state it leaves. \<open>setView\<close> is the
  optional fast path that \<open>setSinkView\<close> tests for. \<open>SetProto\<close> is never called by the
  group and is left out.
\<close>

record 's Sink =
  SetString :: "string \<Rightarrow> 's \<Rightarrow> error option \<times> 's"
  SetBytes :: "string \<Rightarrow> 's \<Rightarrow> error option \<times> 's"
  view :: "'s \<Rightarrow> error + ByteView"
  setView :: "(ByteView \<Rightarrow> 's \<Rightarrow> error option \<times> 's) option"

definition setSinkView :: "'s Sink \<Rightarrow> 's \<Rightarrow> ByteView \<Rightarrow> error option \<times> 's" where
  "setSinkView sk d v =
     (case setView sk of
        Some vs \<Rightarrow> vs v d
      | None \<Rightarrow>
          (case b v of
             Some bs \<Rightarrow> SetBytes sk bs d
           | None \<Rightarrow> SetString sk (s v) d))"

text \<open>\<open>stringSink\<close>: the state is the string behind \<open>sp\<close> and the view \<open>v\<close>.\<close>

definition stringSink_SetString :: "string \<Rightarrow> string \<times> ByteView \<Rightarrow> error option \<times> (string \<times> ByteView)" where
  "stringSink_SetString x d = (None, (x, \<lparr>b = None, s = x\<rparr>))"

definition stringSink :: "(string \<times> ByteView) Sink" where
  "stringSink =
     \<lparr>SetString = stringSink_SetString,
      SetBytes = (\<lambda>x. stringSink_SetString x),
      view = (\<lambda>d. Inr (snd d)),
      setView = None\<rparr>"

text \<open>\<open>byteViewSink\<close>: the state is the view behind \<open>dst\<close>.\<close>

definition byteViewSink :: "ByteView Sink" where
  "byteViewSink =
     \<lparr>SetString = (\<lambda>x d. (None, \<lparr>b = None, s = x\<rparr>)),
      SetBytes = (\<lambda>x d. (None, \<lparr>b = Some x, s = []\<rparr>)),
      view = (\<lambda>d. Inr d),
      setView = Some (\<lambda>v d. (None, v))\<rparr>"

text \<open>
  A getter fills the sink and returns its error. A \<open>ProtoGetter\<close> takes the group name
  and the key of the request and returns its error or the \<open>Value\<close> of the response. A
  \<open>PeerPicker\<close> returns the peer when it names a remote one.
\<close>

type_synonym 's Getter = "string \<Rightarrow> 's Sink \<Rightarrow> 's \<Rightarrow> error option \<times> 's"
type_synonym ProtoGetter = "string \<Rightarrow> string \<Rightarrow> error + string option"
type_synonym PeerPicker = "string \<Rightarrow> ProtoGetter option"

definition NoPeers :: PeerPicker where
  "NoPeers key = None"

definition getPeers :: "(string \<Rightarrow> PeerPicker option) option \<Rightarrow> string \<Rightarrow> PeerPicker" where
  "getPeers portPicker groupName =
     (case portPicker of
        None \<Rightarrow> NoPeers
      | Some f \<Rightarrow> (case f groupName of None \<Rightarrow> NoPeers | Some pk \<Rightarrow> pk))"

section \<open>Groups (groupcache.go)\<close>

record Stats =
  Gets :: int
  CacheHits :: int
  PeerLoads :: int
  PeerErrors :: int
  Loads :: int
  LoadsDeduped :: int
  LocalLoads :: int
  LocalLoadErrs :: int
  ServerRequests :: int

text \<open>
  \<open>peersOnce\<close> is the done flag of the \<open>sync.Once\<close>. The random source \<open>rand\<close> is
  replaced by an argument of \<open>Get\<close>: the number that \<open>Intn(10)\<close> returns.
\<close>

record 's Group =
  name :: string
  getter :: "'s Getter"
  peersOnce :: bool
  peers :: "PeerPicker option"
  cacheBytes :: int
  mainCache :: gcache
  hotCache :: gcache
  loadGroup :: "ByteView flight_Group"
  Stats :: Stats

datatype CacheType = MainCache | HotCache

definition initPeers :: "(string \<Rightarrow> PeerPicker option) option \<Rightarrow> 's Group \<Rightarrow> 's Group" where
  "initPeers portPicker g =
     (if peers g = None then g\<lparr>peers := Some (getPeers portPicker (name g))\<rparr> else g)"

definition lookupCache :: "'s Group \<Rightarrow> string \<Rightarrow> 's Group \<times> ByteView \<times> bool" where
  "lookupCache g key =
     (if cacheBytes g \<le> 0 then (g, \<lparr>b = None, s = []\<rparr>, False)
      else
        (let (mc, r1) = cache_get (mainCache g) key;
             g1 = g\<lparr>mainCache := mc\<rparr>
         in case r1 of
              Some v \<Rightarrow> (g1, v, True)
            | None \<Rightarrow>
                (let (hc, r2) = cache_get (hotCache g1) key;
                     g2 = g1\<lparr>hotCache := hc\<rparr>
                 in case r2 of
                      Some v \<Rightarrow> (g2, v, True)
                    | None \<Rightarrow> (g2, \<lparr>b = None, s = []\<rparr>, False))))"

text \<open>Go's integer division truncates towards zero.\<close>

definition go_div :: "int \<Rightarrow> int \<Rightarrow> int" where
  "go_div x y = sgn x * sgn y * (\<bar>x\<bar> div \<bar>y\<bar>)"

text \<open>
  The eviction loop of \<open>populateCache\<close>. It has no bound of its own, so it is a partial
  function: \<open>None\<close> means that it never returns.
\<close>

partial_function (option) evictLoop :: "'s Group \<Rightarrow> 's Group option" where
  "evictLoop g =
     (let mainBytes = cache_bytes (mainCache g);
          hotBytes = cache_bytes (hotCache g)
      in if mainBytes + hotBytes \<le> cacheBytes g then Some g
         else if hotBytes > go_div mainBytes 8
              then evictLoop (g\<lparr>hotCache := cache_removeOldest (hotCache g)\<rparr>)
              else evictLoop (g\<lparr>mainCache := cache_removeOldest (mainCache g)\<rparr>))"

definition populateCache :: "'s Group \<Rightarrow> string \<Rightarrow> ByteView \<Rightarrow> CacheType \<Rightarrow> 's Group option" where
  "populateCache g key val which =
     (if cacheBytes g \<le> 0 then Some g
      else evictLoop
             (case which of
                MainCache \<Rightarrow> g\<lparr>mainCache := cache_add (mainCache g) key val\<rparr>
              | HotCache \<Rightarrow> g\<lparr>hotCache := cache_add (hotCache g) key val\<rparr>))"

definition getLocally :: "'s Group \<Rightarrow> string \<Rightarrow> 's Sink \<Rightarrow> 's \<Rightarrow> (error + ByteView) \<times> 's" where
  "getLocally g key sk d =
     (case getter g key sk d of
        (Some e, d1) \<Rightarrow> (Inl e, d1)
      | (None, d1) \<Rightarrow> (view sk d1, d1))"

definition getFromPeer ::
  "'s Group \<Rightarrow> int \<Rightarrow> ProtoGetter \<Rightarrow> string \<Rightarrow> ((error + ByteView) \<times> 's Group) option" where
  "getFromPeer g intn peer key =
     (case peer (name g) key of
        Inl e \<Rightarrow> Some (Inl e, g)
      | Inr res_Value \<Rightarrow>
          (let val = \<lparr>b = res_Value, s = []\<rparr>;
               pop = (intn = 0)
           in if pop
              then (case populateCache g key val HotCache of
                      None \<Rightarrow> None
                    | Some g1 \<Rightarrow> Some (Inr val, g1))
              else Some (Inr val, g)))"

text \<open>\<open>g.Stats.X.Add(n)\<close> for the counter with update function \<open>upd\<close>.\<close>

definition stat_add :: "((int \<Rightarrow> int) \<Rightarrow> Stats \<Rightarrow> Stats) \<Rightarrow> int \<Rightarrow> 's Group \<Rightarrow> 's Group" where
  "stat_add upd n g = g\<lparr>Stats := upd (\<lambda>i. i + n) (Stats g)\<rparr>"

text \<open>
  The closure that \<open>load\<close> hands to the flight group. Its state is the group, the state
  of the sink and the captured variable \<open>destPopulated\<close>. \<open>None\<close>: it does not return (the
  eviction loop does not, or the peer picker is nil).
\<close>

definition load_local ::
  "string \<Rightarrow> 's Sink \<Rightarrow> 's Group \<times> 's \<times> bool
     \<Rightarrow> ((ByteView option \<times> error option) \<times> ('s Group \<times> 's \<times> bool)) option" where
  "load_local key sk st =
     (case st of (g, d, destPopulated) \<Rightarrow>
        (case getLocally g key sk d of
           (Inl e, d1) \<Rightarrow>
             Some ((None, Some e), (stat_add LocalLoadErrs_update 1 g, d1, destPopulated))
         | (Inr val, d1) \<Rightarrow>
             (case populateCache (stat_add LocalLoads_update 1 g) key val MainCache of
                None \<Rightarrow> None
              | Some g1 \<Rightarrow> Some ((Some val, None), (g1, d1, True)))))"

definition load_fn ::
  "int \<Rightarrow> string \<Rightarrow> 's Sink \<Rightarrow> 's Group \<times> 's \<times> bool
     \<Rightarrow> ((ByteView option \<times> error option) \<times> ('s Group \<times> 's \<times> bool)) option" where
  "load_fn intn key sk st =
     (case st of (g0, d, destPopulated) \<Rightarrow>
        (let g = stat_add LoadsDeduped_update 1 g0
         in case peers g of
              None \<Rightarrow> None
            | Some pk \<Rightarrow>
                (case pk key of
                   Some peer \<Rightarrow>
                     (case getFromPeer g intn peer key of
                        None \<Rightarrow> None
                      | Some (Inr val, g1) \<Rightarrow>
                          Some ((Some val, None), (stat_add PeerLoads_update 1 g1, d, destPopulated))
                      | Some (Inl e, g1) \<Rightarrow>
                          load_local key sk (stat_add PeerErrors_update 1 g1, d, destPopulated))
                 | None \<Rightarrow> load_local key sk (g, d, destPopulated))))"

text \<open>
  \<open>load\<close> returns the value, \<open>destPopulated\<close>, the error, the state of the sink and the
  group. A nil result without error would make the type assertion panic: \<open>None\<close>.
\<close>

definition load ::
  "'s Group \<Rightarrow> int \<Rightarrow> string \<Rightarrow> 's Sink \<Rightarrow> 's
     \<Rightarrow> (ByteView \<times> bool \<times> error option \<times> 's \<times> 's Group) option" where
  "load g0 intn key sk d =
     (let g = stat_add Loads_update 1 g0
      in case Do_seq (loadGroup g) key (load_fn intn key sk) (g, d, False) of
           None \<Rightarrow> None
         | Some ((viewi, err), fg, (g1, d1, destPopulated)) \<Rightarrow>
             (let g2 = g1\<lparr>loadGroup := fg\<rparr>
              in case err of
                   Some e \<Rightarrow> Some (\<lparr>b = None, s = []\<rparr>, destPopulated, Some e, d1, g2)
                 | None \<Rightarrow>
                     (case viewi of
                        None \<Rightarrow> None
                      | Some val \<Rightarrow> Some (val, destPopulated, None, d1, g2))))"

text \<open>
  \<open>Get\<close> takes the registered peer picker factory \<open>portPicker\<close> (a package variable), the
  number \<open>intn\<close> that the random source gives, the key and the sink (\<open>None\<close> for a nil
  sink: otherwise its methods and state). It returns the error, the sink and the group.
\<close>

definition Group_Get ::
  "'s Group \<Rightarrow> (string \<Rightarrow> PeerPicker option) option \<Rightarrow> int \<Rightarrow> string \<Rightarrow> ('s Sink \<times> 's) option
     \<Rightarrow> (error option \<times> ('s Sink \<times> 's) option \<times> 's Group) option" where
  "Group_Get g0 portPicker intn key dest =
     (let g1 = (if peersOnce g0 then g0 else (initPeers portPicker g0)\<lparr>peersOnce := True\<rparr>);
          g = stat_add Gets_update 1 g1
      in case dest of
           None \<Rightarrow> Some (Some (ErrorString ''groupcache: nil dest Sink''), None, g)
         | Some (sk, d) \<Rightarrow>
             (case lookupCache g key of (g2, val, cacheHit) \<Rightarrow>
                if cacheHit
                then (case setSinkView sk d val of
                        (e, d1) \<Rightarrow> Some (e, Some (sk, d1), stat_add CacheHits_update 1 g2))
                else (case load g2 intn key sk d of
                        None \<Rightarrow> None
                      | Some (val1, destPopulated, err, d1, g3) \<Rightarrow>
                          if err \<noteq> None then Some (err, Some (sk, d1), g3)
                          else if destPopulated then Some (None, Some (sk, d1), g3)
                          else (case setSinkView sk d1 val1 of
                                  (e, d2) \<Rightarrow> Some (e, Some (sk, d2), g3)))))"

section \<open>Invariants of the cache\<close>

text \<open>
  The list and the map of an initialised \<open>lru.Cache\<close> hold the same elements: the list
  has no element twice, every element was allocated, a key of the map leads to an element
  of the list that holds this key, and every element of the list is reached from the map
  by the key it holds.
\<close>

definition lru_inv :: "'st lru_Cache \<Rightarrow> bool" where
  "lru_inv c \<longleftrightarrow>
     (case cache c of
        None \<Rightarrow> True
      | Some m \<Rightarrow>
          distinct (ll c) \<and> (\<forall>a \<in> set (ll c). a < nextElem c) \<and>
          (\<forall>k a. m k = Some a \<longrightarrow> a \<in> set (ll c) \<and> (\<exists>v. elems c a = Some (k, v))) \<and>
          (\<forall>a \<in> set (ll c). \<exists>k v. elems c a = Some (k, v) \<and> m k = Some a))"

text \<open>
  A segment is accurate when \<open>nbytes\<close> is the sum of the sizes of its entries and its
  \<open>lru.Cache\<close>, if any, is the one \<open>cache.add\<close> builds.
\<close>

definition seg_ok :: "gcache \<Rightarrow> bool" where
  "seg_ok c \<longleftrightarrow>
     nbytes c = sum_list (map entry_size (cache_entries c)) \<and>
     (case lru c of
        None \<Rightarrow> True
      | Some l \<Rightarrow> lru_inv l \<and> OnEvicted l = Some onEvicted \<and> MaxEntries l = 0)"

section \<open>The hash ring (package consistenthash)\<close>

text \<open>
  A hash maps bytes to a \<open>uint32\<close>; \<open>int(...)\<close> of it is its value as a non-negative
  number (\<open>int\<close> has 64 bits). \<open>New\<close> takes \<open>crc32.ChecksumIEEE\<close>, the hash it falls back
  to, as its first argument.
\<close>

type_synonym Hash = "string \<Rightarrow> 32 word"

record Map =
  hash :: Hash
  replicas :: int
  keys :: "int list"
  hashMap :: "int \<rightharpoonup> string"

definition New :: "Hash \<Rightarrow> int \<Rightarrow> Hash option \<Rightarrow> Map" where
  "New ChecksumIEEE n fn =
     \<lparr>hash = (case fn of None \<Rightarrow> ChecksumIEEE | Some f \<Rightarrow> f),
      replicas = n, keys = [], hashMap = Map.empty\<rparr>"

definition IsEmpty :: "Map \<Rightarrow> bool" where
  "IsEmpty m \<longleftrightarrow> length (keys m) = 0"

text \<open>\<open>strconv.Itoa\<close>: the decimal digits, after a minus sign for a negative number.\<close>

fun digits :: "nat \<Rightarrow> string" where
  "digits n = (if n < 10 then [char_of (48 + n)] else digits (n div 10) @ [char_of (48 + n mod 10)])"

definition Itoa :: "int \<Rightarrow> string" where
  "Itoa i = (if i < 0 then CHR ''-'' # digits (nat (- i)) else digits (nat i))"

text \<open>The body of the inner loop of \<open>Add\<close>, for the peer \<open>key\<close> and the replica \<open>i\<close>.\<close>

definition Add_replica :: "string \<Rightarrow> int \<Rightarrow> Map \<Rightarrow> Map" where
  "Add_replica key i m =
     (let h = uint (hash m (Itoa i @ key))
      in m\<lparr>keys := keys m @ [h], hashMap := (hashMap m)(h \<mapsto> key)\<rparr>)"

definition Map_Add :: "Map \<Rightarrow> string list \<Rightarrow> Map" where
  "Map_Add m ks =
     (if length ks = 0 then m
      else (let m1 = fold (\<lambda>key. fold (Add_replica key) [0 .. replicas m - 1]) ks m
            in m1\<lparr>keys := sort (keys m1)\<rparr>))"

text \<open>
  \<open>sort.Search(n, f)\<close>: the binary search of the standard library, which returns the
  least index in \<open>[0, n)\<close> at which \<open>f\<close> holds, and \<open>n\<close> if there is none, provided \<open>f\<close>
  is false on a prefix and true on the rest.
\<close>

function Search_loop :: "(nat \<Rightarrow> bool) \<Rightarrow> nat \<Rightarrow> nat \<Rightarrow> nat" where
  "Search_loop f i j =
     (if i < j
      then (let h = (i + j) div 2
            in if \<not> f h then Search_loop f (h + 1) j else Search_loop f i h)
      else i)"
  by pat_completeness auto
termination
  by (relation "measure (\<lambda>(f, i, j). j - i)") auto

declare Search_loop.simps [simp del]

definition Search :: "nat \<Rightarrow> (nat \<Rightarrow> bool) \<Rightarrow> nat" where
  "Search n f = Search_loop f 0 n"

definition Map_Get :: "Map \<Rightarrow> string \<Rightarrow> string" where
  "Map_Get m key =
     (if IsEmpty m then []
      else (let h = uint (hash m key);
                idx = Search (length (keys m)) (\<lambda>i. keys m ! i \<ge> h);
                idx1 = (if idx = length (keys m) then 0 else idx)
            in case hashMap m (keys m ! idx1) of None \<Rightarrow> [] | Some node \<Rightarrow> node))"

text \<open>The hash that a ring made by \<open>New\<close> uses.\<close>

definition ring_hash :: "Hash \<Rightarrow> Hash option \<Rightarrow> Hash" where
  "ring_hash ChecksumIEEE fn = (case fn of None \<Rightarrow> ChecksumIEEE | Some f \<Rightarrow> f)"

text \<open>
  The ring as the specification describes it: the points \<open>(hash, peer)\<close> in the order in
  which they are made, and the lookup on a list of points that is sorted by hash.
\<close>

definition ring_points :: "Hash \<Rightarrow> int \<Rightarrow> string list \<Rightarrow> (int \<times> string) list" where
  "ring_points hf n peer_ids =
     concat (map (\<lambda>p. map (\<lambda>i. (uint (hf (Itoa i @ p)), p)) [0 .. n - 1]) peer_ids)"

definition pick_spec :: "(int \<times> string) list \<Rightarrow> int \<Rightarrow> string" where
  "pick_spec ring h =
     (case List.find (\<lambda>e. h \<le> fst e) ring of
        Some e \<Rightarrow> snd e
      | None \<Rightarrow> (case ring of [] \<Rightarrow> [] | e # es \<Rightarrow> snd e))"

section \<open>Auxiliary definitions for the statements\<close>

text \<open>The segment that \<open>populateCache\<close> is asked to fill.\<close>

definition seg_of :: "CacheType \<Rightarrow> 's Group \<Rightarrow> gcache" where
  "seg_of which g = (case which of MainCache \<Rightarrow> mainCache g | HotCache \<Rightarrow> hotCache g)"

text \<open>The peer picker that \<open>Get\<close> uses: the one of the group once \<open>initPeers\<close> has run.\<close>

definition Group_peers :: "(string \<Rightarrow> PeerPicker option) option \<Rightarrow> 's Group \<Rightarrow> PeerPicker option" where
  "Group_peers portPicker g = peers (if peersOnce g then g else initPeers portPicker g)"

text \<open>No call for the key is in flight.\<close>

definition idle :: "'v flight_Group \<Rightarrow> string \<Rightarrow> bool" where
  "idle fg key = (case flight_m fg of None \<Rightarrow> True | Some mp \<Rightarrow> mp key = None)"

text \<open>The group after the first two statements of \<open>Get\<close>.\<close>

definition entered :: "(string \<Rightarrow> PeerPicker option) option \<Rightarrow> 's Group \<Rightarrow> 's Group" where
  "entered portPicker g =
     stat_add Gets_update 1 (if peersOnce g then g else (initPeers portPicker g)\<lparr>peersOnce := True\<rparr>)"

text \<open>
  \<open>newGroup\<close> without the registry of groups and its hooks: the group it builds.
\<close>

definition newGroup :: "string \<Rightarrow> int \<Rightarrow> 's Getter \<Rightarrow> PeerPicker option \<Rightarrow> 's Group" where
  "newGroup nm cb gt pk =
     \<lparr>name = nm, getter = gt, peersOnce = False, peers = pk, cacheBytes = cb,
      mainCache = \<lparr>nbytes = 0, lru = None, nhit = 0, nget = 0, nevict = 0, cacheName = ''main''\<rparr>,
      hotCache = \<lparr>nbytes = 0, lru = None, nhit = 0, nget = 0, nevict = 0, cacheName = ''hot''\<rparr>,
      loadGroup = \<lparr>flight_m = None, calls = Map.empty, nextCall = 0\<rparr>,
      Stats = \<lparr>Gets = 0, CacheHits = 0, PeerLoads = 0, PeerErrors = 0, Loads = 0,
               LoadsDeduped = 0, LocalLoads = 0, LocalLoadErrs = 0, ServerRequests = 0\<rparr>\<rparr>"

text \<open>Getters and a peer for the worked examples.\<close>

definition prefix_getter :: "'s Getter" where
  "prefix_getter key sk d = SetString sk (''v:'' @ key) d"

definition erring_getter :: "'s Getter" where
  "erring_getter key sk d = (Some (ErrorString ''no such key''), d)"

definition dead_peer :: ProtoGetter where
  "dead_peer nm key = Inl (ErrorString ''connection refused'')"

definition example_group :: "(string \<times> ByteView) Group" where
  "example_group = newGroup ''g'' 5 prefix_getter None"

text \<open>
  Two calls of \<open>Get\<close> for one key that both look the key up before either of them loads
  it. The statements of \<open>Get\<close> up to the lookup run for the first caller and then for the
  second, both miss, and then the two callers run \<open>load\<close>, the first to its end before the
  second starts; the random source gives \<open>intn1\<close> to the first and \<open>intn2\<close> to the second.
  The result is the group they leave. \<open>None\<close>: a lookup hits, or a \<open>load\<close> does not
  return.
\<close>

definition racing_Gets ::
  "'s Group \<Rightarrow> (string \<Rightarrow> PeerPicker option) option \<Rightarrow> int \<Rightarrow> int \<Rightarrow> string \<Rightarrow> 's Sink \<Rightarrow> 's
     \<Rightarrow> 's Group option" where
  "racing_Gets g pp intn1 intn2 key sk d =
     (case lookupCache (entered pp g) key of (g1, v1, hit1) \<Rightarrow>
      case lookupCache (entered pp g1) key of (g2, v2, hit2) \<Rightarrow>
        if hit1 \<or> hit2 then None
        else (case load g2 intn1 key sk d of
                None \<Rightarrow> None
              | Some (val1, dp1, err1, d1, g3) \<Rightarrow>
                  (case load g3 intn2 key sk d of
                     None \<Rightarrow> None
                   | Some (val2, dp2, err2, d2, g4) \<Rightarrow> Some g4)))"

text \<open>
  A peer that serves the key \<open>a\<close> and fails on every other key, the picker that names it
  for every key, and the group with a budget of 5 bytes after two racing calls of \<open>Get\<close>
  for \<open>a\<close> that were both sampled into the hot segment.
\<close>

definition half_dead_peer :: ProtoGetter where
  "half_dead_peer nm key =
     (if key = ''a'' then Inr (Some ''xyz'') else Inl (ErrorString ''connection refused''))"

definition remote_picker :: PeerPicker where
  "remote_picker key = Some half_dead_peer"

definition raced_group :: "(string \<times> ByteView) Group option" where
  "raced_group =
     racing_Gets (newGroup ''g'' 5 prefix_getter (Some remote_picker)) None 0 0 ''a''
       stringSink ([], \<lparr>b = None, s = []\<rparr>)"

text \<open>A hash under which all points of a ring collide.\<close>

definition const_hash :: Hash where
  "const_hash x = 7"

section \<open>Properties of byte views\<close>

lemma Len_view_bytes: "Len v = int (length (view_bytes v))"
  by (simp add: Len_def view_bytes_def split: option.splits)

lemma SliceFrom_in_range:
  assumes "0 \<le> off" "off \<le> Len v"
  shows "\<exists>v'. SliceFrom v off = Some v' \<and> view_bytes v' = drop (nat off) (view_bytes v)"
  using assms by (auto simp: SliceFrom_def Len_def view_bytes_def split: option.splits)

lemma Copy_view_bytes:
  "Copy v dest =
     (take (min (length dest) (length (view_bytes v))) (view_bytes v)
        @ drop (min (length dest) (length (view_bytes v))) dest,
      int (min (length dest) (length (view_bytes v))))"
  by (simp add: Copy_def go_copy_def view_bytes_def Let_def split: option.splits)

text \<open>
  C9. \<open>ReadAt\<close> never panics. A negative offset gives the invalid-offset error with no
  byte read; an offset at or past the end gives end-of-input with no byte read; any other
  offset copies \<open>n = min(len(p), Len - off)\<close> bytes of the view, taken from \<open>off\<close> on,
  over the start of \<open>p\<close>, and returns \<open>n\<close> with end-of-input exactly when \<open>n < len(p)\<close>.
\<close>

theorem ReadAt_cases:
  "(off < 0 \<longrightarrow>
      ReadAt v p off = Some (p, 0, Some (ErrorString ''view: invalid offset''))) \<and>
   (off \<ge> Len v \<longrightarrow> ReadAt v p off = Some (p, 0, Some EOF)) \<and>
   (0 \<le> off \<and> off < Len v \<longrightarrow>
      (let n = min (length p) (nat (Len v - off))
       in ReadAt v p off =
            Some (take n (drop (nat off) (view_bytes v)) @ drop n p, int n,
                  if n < length p then Some EOF else None)))"
proof (intro conjI impI)
  assume "off < 0"
  then show "ReadAt v p off = Some (p, 0, Some (ErrorString ''view: invalid offset''))"
    by (simp add: ReadAt_def)
next
  assume "off \<ge> Len v"
  moreover have "0 \<le> Len v" by (simp add: Len_view_bytes)
  ultimately show "ReadAt v p off = Some (p, 0, Some EOF)"
    by (simp add: ReadAt_def)
next
  assume range: "0 \<le> off \<and> off < Len v"
  then obtain v' where v': "SliceFrom v off = Some v'"
    and bytes: "view_bytes v' = drop (nat off) (view_bytes v)"
    using SliceFrom_in_range [of off v] by auto
  have len: "length (view_bytes v) - nat off = nat (Len v - off)"
    using range by (simp add: Len_view_bytes) linarith
  show "let n = min (length p) (nat (Len v - off))
        in ReadAt v p off =
             Some (take n (drop (nat off) (view_bytes v)) @ drop n p, int n,
                   if n < length p then Some EOF else None)"
    using range by (simp add: ReadAt_def v' Copy_view_bytes len bytes Let_def)
qed

theorem ReadAt_cases_witness:
  "ReadAt \<lparr>b = None, s = ''hello''\<rparr> ''xxxx'' (-1)
     = Some (''xxxx'', 0, Some (ErrorString ''view: invalid offset'')) \<and>
   ReadAt \<lparr>b = None, s = ''hello''\<rparr> ''xxxx'' 5 = Some (''xxxx'', 0, Some EOF) \<and>
   ReadAt \<lparr>b = Some ''hello'', s = []\<rparr> ''xxxx'' 3 = Some (''loxx'', 2, Some EOF) \<and>
   ReadAt \<lparr>b = None, s = ''hello''\<rparr> ''xxxx'' 1 = Some (''ello'', 4, None)"
  using ReadAt_cases [of "-1" "\<lparr>b = None, s = ''hello''\<rparr>" "''xxxx''"]
    ReadAt_cases [of 5 "\<lparr>b = None, s = ''hello''\<rparr>" "''xxxx''"]
    ReadAt_cases [of 3 "\<lparr>b = Some ''hello'', s = []\<rparr>" "''xxxx''"]
    ReadAt_cases [of 1 "\<lparr>b = None, s = ''hello''\<rparr>" "''xxxx''"]
  by (simp add: Len_def view_bytes_def)

section \<open>Properties of the LRU cache and of the segments\<close>

lemma lru_invI:
  assumes "cache c = Some m" "distinct (ll c)"
    and "\<And>a. a \<in> set (ll c) \<Longrightarrow> a < nextElem c"
    and "\<And>k a. m k = Some a \<Longrightarrow> a \<in> set (ll c) \<and> (\<exists>v. elems c a = Some (k, v))"
    and "\<And>a. a \<in> set (ll c) \<Longrightarrow> \<exists>k v. elems c a = Some (k, v) \<and> m k = Some a"
  shows "lru_inv c"
  using assms by (simp add: lru_inv_def)

lemma map_filter_all_Some:
  "\<forall>x \<in> set xs. f x \<noteq> None \<Longrightarrow> List.map_filter f xs = map (\<lambda>x. the (f x)) xs"
  by (induction xs) (auto simp: map_filter_simps split: option.splits)

lemma entries_map:
  assumes "lru_inv c" "cache c = Some m"
  shows "entries c = map (\<lambda>a. the (elems c a)) (ll c)"
proof -
  have "\<forall>a \<in> set (ll c). elems c a \<noteq> None"
    using assms by (fastforce simp: lru_inv_def)
  then show ?thesis
    by (simp add: entries_def assms(2) map_filter_all_Some)
qed

lemma lru_keys:
  assumes "lru_inv c" "cache c = Some m"
  shows "dom m = fst ` set (entries c)"
proof -
  have A: "\<And>k a. m k = Some a \<Longrightarrow> a \<in> set (ll c) \<and> (\<exists>v. elems c a = Some (k, v))"
    and B: "\<And>a. a \<in> set (ll c) \<Longrightarrow> \<exists>k v. elems c a = Some (k, v) \<and> m k = Some a"
    using assms by (auto simp: lru_inv_def)
  have "dom m = (\<lambda>a. fst (the (elems c a))) ` set (ll c)"
  proof (intro set_eqI iffI)
    fix k assume "k \<in> dom m"
    then obtain a where "m k = Some a" by auto
    with A [of k a] show "k \<in> (\<lambda>a. fst (the (elems c a))) ` set (ll c)"
      by (force simp: image_iff)
  next
    fix k assume "k \<in> (\<lambda>a. fst (the (elems c a))) ` set (ll c)"
    then obtain a where "a \<in> set (ll c)" "k = fst (the (elems c a))" by auto
    with B [of a] show "k \<in> dom m" by auto
  qed
  then show ?thesis
    by (simp add: entries_map [OF assms] image_image)
qed

lemma lru_removeElement_inv:
  assumes "lru_inv c" "cache c = Some m" "e \<in> set (ll c)"
  shows "lru_inv (fst (lru_removeElement c e st))"
proof -
  have A: "\<And>k a. m k = Some a \<Longrightarrow> a \<in> set (ll c) \<and> (\<exists>v. elems c a = Some (k, v))"
    and B: "\<And>a. a \<in> set (ll c) \<Longrightarrow> \<exists>k v. elems c a = Some (k, v) \<and> m k = Some a"
    and d: "distinct (ll c)" and n: "\<forall>a \<in> set (ll c). a < nextElem c"
    using assms(1,2) by (auto simp: lru_inv_def)
  obtain k v where kv: "elems c e = Some (k, v)" "m k = Some e"
    using B [OF assms(3)] by auto
  define c' where "c' = c\<lparr>ll := remove1 e (ll c), cache := Some (m(k := None))\<rparr>"
  have r: "fst (lru_removeElement c e st) = c'"
    by (simp add: lru_removeElement_def kv assms(2) c'_def)
  have "lru_inv c'"
    unfolding lru_inv_def
  proof (simp add: c'_def, intro conjI allI impI ballI)
    show "distinct (remove1 e (ll c))" using d by simp
  next
    fix a assume "a \<in> set (remove1 e (ll c))"
    then show "a < nextElem c" using n d by simp
  next
    fix ka a assume h: "ka \<noteq> k" "m ka = Some a"
    have "a \<noteq> e" using A [OF h(2)] kv(1) h(1) by auto
    then show "a \<in> set (remove1 e (ll c))" using A [OF h(2)] by simp
    show "\<exists>v. elems c a = Some (ka, v)" using A [OF h(2)] by simp
  next
    fix a assume h: "a \<in> set (remove1 e (ll c))"
    then have "a \<in> set (ll c)" "a \<noteq> e" using d by auto
    then obtain ka va where "elems c a = Some (ka, va)" "m ka = Some a" using B by blast
    moreover have "ka \<noteq> k" using calculation kv(2) \<open>a \<noteq> e\<close> by auto
    ultimately show "\<exists>ka. ka \<noteq> k \<and>
              (ka \<noteq> k \<longrightarrow> (\<exists>v. elems c a = Some (ka, v)) \<and> m ka = Some a)" by auto
  qed
  then show ?thesis by (simp add: r)
qed


lemma lru_removeElement_last:
  assumes "lru_inv c" "cache c = Some m" "ll c \<noteq> []"
  shows "entries (fst (lru_removeElement c (last (ll c)) st)) = butlast (entries c)"
    and "snd (lru_removeElement c (last (ll c)) st) =
           (case OnEvicted c of None \<Rightarrow> st
            | Some f \<Rightarrow> f (fst (last (entries c))) (snd (last (entries c))) st)"
proof -
  let ?e = "last (ll c)"
  have e: "?e \<in> set (ll c)" using assms(3) by simp
  have B: "\<And>a. a \<in> set (ll c) \<Longrightarrow> \<exists>k v. elems c a = Some (k, v) \<and> m k = Some a"
    and d: "distinct (ll c)"
    using assms(1,2) by (auto simp: lru_inv_def)
  obtain k v where kv: "elems c ?e = Some (k, v)" "m k = Some ?e"
    using B [OF e] by auto
  have rem: "remove1 ?e (ll c) = butlast (ll c)"
    using d assms(3) by (metis append_butlast_last_id distinct_append remove1_append remove1.simps
        append_Nil2 last_in_set not_distinct_conv_prefix snoc_eq_iff_butlast)
  have all: "\<forall>a \<in> set (ll c). elems c a \<noteq> None" using B by fastforce
  then have all': "\<forall>a \<in> set (butlast (ll c)). elems c a \<noteq> None"
    by (meson in_set_butlastD)
  have ent: "entries c = map (\<lambda>a. the (elems c a)) (ll c)"
    by (simp add: entries_def assms(2) map_filter_all_Some [OF all])
  show "entries (fst (lru_removeElement c ?e st)) = butlast (entries c)"
    by (simp add: lru_removeElement_def kv assms(2) rem entries_def
        map_filter_all_Some [OF all] map_filter_all_Some [OF all'] map_butlast)
  have lst: "last (entries c) = (k, v)"
    using assms(3) by (simp add: ent last_map kv)
  show "snd (lru_removeElement c (last (ll c)) st) =
           (case OnEvicted c of None \<Rightarrow> st
            | Some f \<Rightarrow> f (fst (last (entries c))) (snd (last (entries c))) st)"
    by (simp add: lru_removeElement_def kv lst split: option.splits)
qed

lemma entries_Nil_iff:
  assumes "lru_inv c" "cache c = Some m"
  shows "entries c = [] \<longleftrightarrow> ll c = []"
  by (simp add: entries_map [OF assms])

lemma lru_RemoveOldest_inv: "lru_inv c \<Longrightarrow> lru_inv (fst (lru_RemoveOldest c st))"
  by (auto simp: lru_RemoveOldest_def Back_def lru_removeElement_inv split: option.splits)

lemma lru_RemoveOldest_entries:
  assumes "lru_inv c"
  shows "entries (fst (lru_RemoveOldest c st)) = butlast (entries c)"
proof (cases "cache c")
  case None
  then show ?thesis by (simp add: lru_RemoveOldest_def entries_def)
next
  case (Some m)
  show ?thesis
  proof (cases "ll c = []")
    case True
    then show ?thesis
      by (simp add: lru_RemoveOldest_def Back_def Some entries_def map_filter_simps)
  next
    case False
    then show ?thesis
      by (simp add: lru_RemoveOldest_def Back_def Some lru_removeElement_last [OF assms Some])
  qed
qed

lemma lru_RemoveOldest_state:
  assumes "lru_inv c"
  shows "snd (lru_RemoveOldest c st) =
     (if entries c = [] then st
      else case OnEvicted c of None \<Rightarrow> st
           | Some f \<Rightarrow> f (fst (last (entries c))) (snd (last (entries c))) st)"
proof (cases "cache c")
  case None
  then show ?thesis by (simp add: lru_RemoveOldest_def entries_def)
next
  case (Some m)
  show ?thesis
  proof (cases "ll c = []")
    case True
    then show ?thesis
      by (simp add: lru_RemoveOldest_def Back_def Some entries_def map_filter_simps)
  next
    case False
    then show ?thesis
      using entries_Nil_iff [OF assms Some]
      by (simp add: lru_RemoveOldest_def Back_def Some lru_removeElement_last [OF assms Some])
  qed
qed

lemma lru_RemoveOldest_fields:
  "OnEvicted (fst (lru_RemoveOldest c st)) = OnEvicted c"
  "MaxEntries (fst (lru_RemoveOldest c st)) = MaxEntries c"
  "cache (fst (lru_RemoveOldest c st)) = None \<longleftrightarrow> cache c = None"
  by (auto simp: lru_RemoveOldest_def Back_def lru_removeElement_def Let_def
      split: option.splits)


lemma map_filter_agree:
  "\<forall>x \<in> set xs. f x = g x \<Longrightarrow> List.map_filter f xs = List.map_filter g xs"
  by (induction xs) (auto simp: map_filter_simps split: option.splits)

lemma lru_push_inv:
  fixes val :: ByteView
  assumes "lru_inv c" "cache c = Some m" "m key = None"
  defines "c1 \<equiv> c\<lparr>nextElem := Suc (nextElem c),
                   elems := (elems c)(nextElem c \<mapsto> (key, val)),
                   ll := nextElem c # ll c,
                   cache := Some (m(key \<mapsto> nextElem c))\<rparr>"
  shows "lru_inv c1" and "entries c1 = (key, val) # entries c"
proof -
  have A: "\<And>k a. m k = Some a \<Longrightarrow> a \<in> set (ll c) \<and> (\<exists>v. elems c a = Some (k, v))"
    and B: "\<And>a. a \<in> set (ll c) \<Longrightarrow> \<exists>k v. elems c a = Some (k, v) \<and> m k = Some a"
    and d: "distinct (ll c)" and n: "\<And>a. a \<in> set (ll c) \<Longrightarrow> a < nextElem c"
    using assms(1,2) by (auto simp: lru_inv_def)
  have fresh: "nextElem c \<notin> set (ll c)" using n by blast
  have c1: "cache c1 = Some (m(key \<mapsto> nextElem c))" "ll c1 = nextElem c # ll c"
    "nextElem c1 = Suc (nextElem c)" "elems c1 = (elems c)(nextElem c \<mapsto> (key, val))"
    by (simp_all add: c1_def)
  show "lru_inv c1"
  proof (rule lru_invI [OF c1(1)])
    show "distinct (ll c1)" using d fresh by (simp add: c1)
  next
    fix a assume "a \<in> set (ll c1)"
    then show "a < nextElem c1" using n [of a] by (auto simp: c1)
  next
    fix k a assume h: "(m(key \<mapsto> nextElem c)) k = Some a"
    show "a \<in> set (ll c1) \<and> (\<exists>v. elems c1 a = Some (k, v))"
    proof (cases "k = key")
      case True
      then show ?thesis using h by (auto simp: c1)
    next
      case False
      then have "m k = Some a" using h by simp
      from A [OF this] fresh show ?thesis by (auto simp: c1)
    qed
  next
    fix a assume h: "a \<in> set (ll c1)"
    show "\<exists>k v. elems c1 a = Some (k, v) \<and> (m(key \<mapsto> nextElem c)) k = Some a"
    proof (cases "a = nextElem c")
      case True
      then show ?thesis by (auto simp: c1)
    next
      case False
      then have "a \<in> set (ll c)" using h by (simp add: c1)
      from B [OF this] obtain k v where kv: "elems c a = Some (k, v)" "m k = Some a" by auto
      then have "k \<noteq> key" using assms(3) by auto
      then show ?thesis using kv False by (auto simp: c1)
    qed
  qed
  have "List.map_filter ((elems c)(nextElem c \<mapsto> (key, val))) (ll c)
          = List.map_filter (elems c) (ll c)"
    using fresh by (intro map_filter_agree) auto
  then show "entries c1 = (key, val) # entries c"
    by (simp add: entries_def c1_def assms(2) map_filter_simps)
qed


lemma lru_invD:
  assumes "lru_inv c" "cache c = Some m"
  shows "distinct (ll c)"
    and "\<And>a. a \<in> set (ll c) \<Longrightarrow> a < nextElem c"
    and "\<And>k a. m k = Some a \<Longrightarrow> a \<in> set (ll c) \<and> (\<exists>v. elems c a = Some (k, v))"
    and "\<And>a. a \<in> set (ll c) \<Longrightarrow> \<exists>k v. elems c a = Some (k, v) \<and> m k = Some a"
  using assms by (auto simp: lru_inv_def)

lemma MoveToFront_set: "set (MoveToFront e l) = set l"
proof (cases "e \<in> set l")
  case True
  have "\<And>x. x \<noteq> e \<Longrightarrow> x \<in> set (remove1 e l) \<longleftrightarrow> x \<in> set l"
    by (rule in_set_remove1)
  moreover have "set (remove1 e l) \<subseteq> set l" by (rule set_remove1_subset)
  ultimately have "insert e (set (remove1 e l)) = set l" using True by blast
  then show ?thesis using True by (simp add: MoveToFront_def)
next
  case False
  then show ?thesis by (simp add: MoveToFront_def)
qed

lemma MoveToFront_distinct: "distinct l \<Longrightarrow> distinct (MoveToFront e l)"
  by (auto simp: MoveToFront_def)

lemma lru_touch_inv:
  assumes "lru_inv c" "cache c = Some m"
    and "\<And>a k v. a \<in> set (ll c) \<Longrightarrow> elems c a = Some (k, v) \<Longrightarrow> \<exists>v'. es a = Some (k, v')"
  shows "lru_inv (c\<lparr>ll := MoveToFront e (ll c), elems := es\<rparr>)"
proof (rule lru_invI)
  let ?c = "c\<lparr>ll := MoveToFront e (ll c), elems := es\<rparr>"
  note D = lru_invD [OF assms(1,2)]
  show "cache ?c = Some m" by (simp add: assms(2))
  show "distinct (ll ?c)" using D(1) by (simp add: MoveToFront_distinct)
  show "\<And>a. a \<in> set (ll ?c) \<Longrightarrow> a < nextElem ?c"
    using D(2) by (simp add: MoveToFront_set)
  show "\<And>k a. m k = Some a \<Longrightarrow> a \<in> set (ll ?c) \<and> (\<exists>v. elems ?c a = Some (k, v))"
    using D(3) assms(3) by (fastforce simp: MoveToFront_set)
  show "\<And>a. a \<in> set (ll ?c) \<Longrightarrow> \<exists>k v. elems ?c a = Some (k, v) \<and> m k = Some a"
  proof -
    fix a assume "a \<in> set (ll ?c)"
    then have a: "a \<in> set (ll c)" by (simp add: MoveToFront_set)
    from D(4) [OF a] obtain k v where kv: "elems c a = Some (k, v)" "m k = Some a" by auto
    from assms(3) [OF a kv(1)] kv(2)
    show "\<exists>k v. elems ?c a = Some (k, v) \<and> m k = Some a" by auto
  qed
qed

lemma lru_Get_inv:
  assumes inv: "lru_inv c"
  shows "lru_inv (fst (lru_Get c key))"
proof (cases "cache c")
  case None
  then show ?thesis using inv by (simp add: lru_Get_def)
next
  case (Some m)
  show ?thesis
  proof (cases "m key")
    case None
    then show ?thesis using inv by (simp add: lru_Get_def Some)
  next
    case (Some ele)
    have "lru_inv (c\<lparr>ll := MoveToFront ele (ll c), elems := elems c\<rparr>)"
      by (rule lru_touch_inv [OF inv \<open>cache c = Some m\<close>]) simp
    then show ?thesis by (simp add: lru_Get_def Some \<open>cache c = Some m\<close>)
  qed
qed

lemma lru_Add_inv:
  assumes "lru_inv c"
  shows "lru_inv (fst (lru_Add c key val st))"
proof -
  define c0 where "c0 = (if cache c = None then c\<lparr>cache := Some Map.empty, ll := []\<rparr> else c)"
  have inv0: "lru_inv c0"
    using assms by (auto simp: c0_def lru_inv_def)
  obtain m where m: "cache c0 = Some m" by (cases "cache c") (auto simp: c0_def)
  show ?thesis
  proof (cases "m key")
    case None
    let ?c1 = "c0\<lparr>nextElem := Suc (nextElem c0),
                   elems := (elems c0)(nextElem c0 \<mapsto> (key, val)),
                   ll := nextElem c0 # ll c0,
                   cache := Some (m(key \<mapsto> nextElem c0))\<rparr>"
    have "lru_inv ?c1" by (rule lru_push_inv(1) [OF inv0 m None])
    then have "lru_inv (fst (lru_RemoveOldest ?c1 st))" by (rule lru_RemoveOldest_inv)
    with \<open>lru_inv ?c1\<close> show ?thesis
      by (simp add: lru_Add_def c0_def [symmetric] m None Let_def)
  next
    case (Some ee)
    have "lru_inv (c0\<lparr>ll := MoveToFront ee (ll c0),
             elems := (elems c0)(ee := map_option (\<lambda>(k, _). (k, val)) (elems c0 ee))\<rparr>)"
      by (rule lru_touch_inv [OF inv0 m]) auto
    then show ?thesis
      by (simp add: lru_Add_def c0_def [symmetric] m Some)
  qed
qed

lemma lru_Add_fresh:
  assumes "lru_inv c" "key \<notin> fst ` set (entries c)" "MaxEntries c = 0"
  shows "entries (fst (lru_Add c key val st)) = (key, val) # entries c"
    and "snd (lru_Add c key val st) = st"
proof -
  define c0 where "c0 = (if cache c = None then c\<lparr>cache := Some Map.empty, ll := []\<rparr> else c)"
  have inv0: "lru_inv c0"
    using assms by (auto simp: c0_def lru_inv_def)
  obtain m where m: "cache c0 = Some m" by (cases "cache c") (auto simp: c0_def)
  have e0: "entries c0 = entries c"
    by (auto simp: c0_def entries_def map_filter_simps)
  have None: "m key = None"
    using lru_keys [OF inv0 m] assms(2) e0 by auto
  have mx: "MaxEntries c0 = 0" using assms(3) by (simp add: c0_def)
  show "entries (fst (lru_Add c key val st)) = (key, val) # entries c"
    using lru_push_inv(2) [OF inv0 m None, of val] mx
    by (simp add: lru_Add_def c0_def [symmetric] m None Let_def e0)
  show "snd (lru_Add c key val st) = st"
    using mx by (simp add: lru_Add_def c0_def [symmetric] m None Let_def)
qed

lemma lru_Add_fields:
  "OnEvicted (fst (lru_Add c key val st)) = OnEvicted c"
  "MaxEntries (fst (lru_Add c key val st)) = MaxEntries c"
  by (auto simp: lru_Add_def Let_def lru_RemoveOldest_fields split: option.splits)


lemma lru_Get_sum:
  fixes f :: "string \<times> ByteView \<Rightarrow> int"
  assumes inv: "lru_inv c"
  shows "sum_list (map f (entries (fst (lru_Get c key)))) = sum_list (map f (entries c))"
proof (cases "cache c")
  case None
  then show ?thesis by (simp add: lru_Get_def)
next
  case (Some m)
  show ?thesis
  proof (cases "m key")
    case None
    then show ?thesis by (simp add: lru_Get_def Some)
  next
    case (Some ele)
    note D = lru_invD [OF inv \<open>cache c = Some m\<close>]
    have mem: "ele \<in> set (ll c)" using D(3) [OF Some] by simp
    let ?c = "c\<lparr>ll := MoveToFront ele (ll c), elems := elems c\<rparr>"
    have inv': "lru_inv ?c"
      by (rule lru_touch_inv [OF inv \<open>cache c = Some m\<close>]) simp
    have "entries ?c = map (\<lambda>a. the (elems c a)) (ele # remove1 ele (ll c))"
      using entries_map [OF inv', of m] mem by (simp add: \<open>cache c = Some m\<close> MoveToFront_def)
    moreover have "entries c = map (\<lambda>a. the (elems c a)) (ll c)"
      by (rule entries_map [OF inv \<open>cache c = Some m\<close>])
    ultimately have "sum_list (map f (entries ?c)) = sum_list (map f (entries c))"
      using sum_list_map_remove1 [OF mem, of "\<lambda>a. f (the (elems c a))"]
      by (simp add: comp_def)
    then show ?thesis by (simp add: lru_Get_def Some \<open>cache c = Some m\<close>)
  qed
qed

lemma lru_Get_fields:
  "OnEvicted (fst (lru_Get c key)) = OnEvicted c"
  "MaxEntries (fst (lru_Get c key)) = MaxEntries c"
  by (auto simp: lru_Get_def split: option.splits)

lemma entry_size_nonneg: "0 \<le> entry_size e"
  by (simp add: entry_size_def Len_view_bytes)

lemma sum_entry_size_nonneg: "0 \<le> sum_list (map entry_size es)"
  by (induction es) (simp_all add: entry_size_nonneg)

lemma seg_ok_nonneg: "seg_ok c \<Longrightarrow> 0 \<le> nbytes c"
  by (simp add: seg_ok_def sum_entry_size_nonneg)

lemma seg_ok_pos_nonempty: "seg_ok c \<Longrightarrow> 0 < nbytes c \<Longrightarrow> cache_entries c \<noteq> []"
  by (auto simp: seg_ok_def)

lemma sum_list_butlast:
  fixes f :: "'a \<Rightarrow> int"
  shows "es \<noteq> [] \<Longrightarrow> sum_list (map f (butlast es)) = sum_list (map f es) - f (last es)"
  by (induction es) auto

lemma cache_removeOldest_entries:
  "seg_ok c \<Longrightarrow> cache_entries (cache_removeOldest c) = butlast (cache_entries c)"
  by (auto simp: seg_ok_def cache_removeOldest_def cache_entries_def
      lru_RemoveOldest_entries split_beta split: option.splits)

lemma cache_removeOldest_ok:
  assumes "seg_ok c"
  shows "seg_ok (cache_removeOldest c)"
proof (cases "lru c")
  case None
  then show ?thesis using assms by (simp add: cache_removeOldest_def)
next
  case (Some l)
  then have l: "lru_inv l" "OnEvicted l = Some onEvicted" "MaxEntries l = 0"
    and nb: "nbytes c = sum_list (map entry_size (entries l))"
    using assms by (auto simp: seg_ok_def cache_entries_def)
  have "fst (snd (lru_RemoveOldest l (nbytes c, nevict c)))
          = sum_list (map entry_size (butlast (entries l)))"
    using l nb
    by (simp add: lru_RemoveOldest_state onEvicted_def sum_list_butlast entry_size_def)
  then show ?thesis
    using l
    by (simp add: seg_ok_def cache_removeOldest_def Some cache_entries_def split_beta
        lru_RemoveOldest_entries lru_RemoveOldest_inv lru_RemoveOldest_fields)
qed

lemma cache_add_fresh:
  assumes "seg_ok c" "key \<notin> fst ` set (cache_entries c)"
  shows "seg_ok (cache_add c key val)"
    and "cache_entries (cache_add c key val) = (key, val) # cache_entries c"
proof -
  define l0 where "l0 = (case lru c of
                  None \<Rightarrow> \<lparr>MaxEntries = 0, OnEvicted = Some onEvicted, ll = [],
                            cache = None, elems = Map.empty, nextElem = 0\<rparr>
                | Some l \<Rightarrow> l)"
  have l0: "lru_inv l0" "OnEvicted l0 = Some onEvicted" "MaxEntries l0 = 0"
    and e0: "entries l0 = cache_entries c"
    using assms(1)
    by (auto simp: l0_def seg_ok_def lru_inv_def cache_entries_def entries_def
        split: option.splits)
  have fresh: "key \<notin> fst ` set (entries l0)" using assms(2) by (simp add: e0)
  note F = lru_Add_fresh [OF l0(1) fresh l0(3), of val "(nbytes c, nevict c)"]
  show "cache_entries (cache_add c key val) = (key, val) # cache_entries c"
    using F by (simp add: cache_add_def l0_def [symmetric] split_beta cache_entries_def e0)
  have nb: "nbytes c = sum_list (map entry_size (entries l0))"
    using assms(1) by (simp add: seg_ok_def e0)
  have res: "cache_add c key val =
      c\<lparr>lru := Some (fst (lru_Add l0 key val (nbytes c, nevict c))),
        nbytes := nbytes c + (int (length key) + Len val), nevict := nevict c\<rparr>"
    using F(2) by (simp add: cache_add_def l0_def [symmetric] split_beta)
  show "seg_ok (cache_add c key val)"
    unfolding seg_ok_def res
    by (simp add: cache_entries_def lru_Add_fresh(1) [OF l0(1) fresh l0(3)] nb
        entry_size_def lru_Add_inv l0 lru_Add_fields)
qed

lemma cache_get_ok:
  assumes "seg_ok c"
  shows "seg_ok (fst (cache_get c key))"
proof (cases "lru c")
  case None
  then show ?thesis using assms by (simp add: cache_get_def seg_ok_def cache_entries_def)
next
  case (Some l)
  then have l: "lru_inv l" "OnEvicted l = Some onEvicted" "MaxEntries l = 0"
    and nb: "nbytes c = sum_list (map entry_size (entries l))"
    using assms by (auto simp: seg_ok_def cache_entries_def)
  show ?thesis
    using l nb
    by (cases "snd (lru_Get l key)")
      (simp_all add: cache_get_def Some seg_ok_def cache_entries_def split_beta
        lru_Get_inv lru_Get_sum lru_Get_fields)
qed


lemma go_div_nonneg: "0 \<le> x \<Longrightarrow> go_div x 8 = x div 8"
  by (cases "x = 0") (simp_all add: go_div_def)

lemma evictLoop_post:
  assumes "evictLoop g = Some g'"
  shows "cache_bytes (mainCache g') + cache_bytes (hotCache g') \<le> cacheBytes g' \<and>
     cacheBytes g' = cacheBytes g"
proof (rule evictLoop.raw_induct
    [where P = "\<lambda>g g'. cache_bytes (mainCache g') + cache_bytes (hotCache g') \<le> cacheBytes g' \<and>
                    cacheBytes g' = cacheBytes g", OF _ assms])
  fix f and x y :: "'a Group"
  assume IH: "\<And>x y. f x = Some y \<Longrightarrow>
      cache_bytes (mainCache y) + cache_bytes (hotCache y) \<le> cacheBytes y \<and>
      cacheBytes y = cacheBytes x"
    and body: "(let mainBytes = cache_bytes (mainCache x);
          hotBytes = cache_bytes (hotCache x)
      in if mainBytes + hotBytes \<le> cacheBytes x then Some x
         else if hotBytes > go_div mainBytes 8
              then f (x\<lparr>hotCache := cache_removeOldest (hotCache x)\<rparr>)
              else f (x\<lparr>mainCache := cache_removeOldest (mainCache x)\<rparr>)) = Some y"
  show "cache_bytes (mainCache y) + cache_bytes (hotCache y) \<le> cacheBytes y \<and>
      cacheBytes y = cacheBytes x"
    using body by (auto simp: Let_def split: if_splits dest!: IH)
qed

lemma evictLoop_terminates:
  assumes "seg_ok (mainCache g)" "seg_ok (hotCache g)" "0 \<le> cacheBytes g"
  shows "\<exists>g'. evictLoop g = Some g' \<and> seg_ok (mainCache g') \<and> seg_ok (hotCache g')"
  using assms
proof (induction "length (cache_entries (mainCache g)) + length (cache_entries (hotCache g))"
    arbitrary: g rule: less_induct)
  case less
  let ?mb = "cache_bytes (mainCache g)" and ?hb = "cache_bytes (hotCache g)"
  have nn: "0 \<le> ?mb" "0 \<le> ?hb"
    using less.prems by (simp_all add: cache_bytes_def seg_ok_nonneg)
  show ?case
  proof (cases "?mb + ?hb \<le> cacheBytes g")
    case True
    then show ?thesis using less.prems by (subst evictLoop.simps) simp
  next
    case over: False
    show ?thesis
    proof (cases "?hb > go_div ?mb 8")
      case True
      then have "0 < nbytes (hotCache g)"
        using nn pos_imp_zdiv_nonneg_iff [of 8 "nbytes (mainCache g)"]
        by (simp add: go_div_nonneg cache_bytes_def)
      then have ne: "cache_entries (hotCache g) \<noteq> []"
        using less.prems seg_ok_pos_nonempty by blast
      let ?g = "g\<lparr>hotCache := cache_removeOldest (hotCache g)\<rparr>"
      have "\<exists>g'. evictLoop ?g = Some g' \<and> seg_ok (mainCache g') \<and> seg_ok (hotCache g')"
        using less.prems ne
        by (intro less.hyps) (simp_all add: cache_removeOldest_ok cache_removeOldest_entries)
      then show ?thesis using over True by (subst evictLoop.simps) simp
    next
      case False
      then have "0 < nbytes (mainCache g)" using nn over less.prems(3)
        by (cases "nbytes (mainCache g) = 0") (simp_all add: go_div_nonneg cache_bytes_def)
      then have ne: "cache_entries (mainCache g) \<noteq> []"
        using less.prems seg_ok_pos_nonempty by blast
      let ?g = "g\<lparr>mainCache := cache_removeOldest (mainCache g)\<rparr>"
      have "\<exists>g'. evictLoop ?g = Some g' \<and> seg_ok (mainCache g') \<and> seg_ok (hotCache g')"
        using less.prems ne
        by (intro less.hyps) (simp_all add: cache_removeOldest_ok cache_removeOldest_entries)
      then show ?thesis using over False by (subst evictLoop.simps) simp
    qed
  qed
qed


lemma populateCache_post:
  assumes "populateCache g key val which = Some g'" "0 < cacheBytes g"
  shows "cache_bytes (mainCache g') + cache_bytes (hotCache g') \<le> cacheBytes g'"
    and "cacheBytes g' = cacheBytes g"
  using assms
  by (auto simp: populateCache_def split: if_splits CacheType.splits dest!: evictLoop_post)

lemma populateCache_terminates:
  assumes "seg_ok (mainCache g)" "seg_ok (hotCache g)"
    and "key \<notin> fst ` set (cache_entries (seg_of which g))"
  shows "\<exists>g'. populateCache g key val which = Some g' \<and>
           seg_ok (mainCache g') \<and> seg_ok (hotCache g')"
proof (cases "cacheBytes g \<le> 0")
  case True
  then show ?thesis using assms by (simp add: populateCache_def)
next
  case False
  show ?thesis
  proof (cases which)
    case MainCache
    then have "seg_ok (cache_add (mainCache g) key val)"
      using assms by (simp add: seg_of_def cache_add_fresh)
    then show ?thesis
      using False MainCache assms(2)
        evictLoop_terminates [of "g\<lparr>mainCache := cache_add (mainCache g) key val\<rparr>"]
      by (simp add: populateCache_def)
  next
    case HotCache
    then have "seg_ok (cache_add (hotCache g) key val)"
      using assms by (simp add: seg_of_def cache_add_fresh)
    then show ?thesis
      using False HotCache assms(1)
        evictLoop_terminates [of "g\<lparr>hotCache := cache_add (hotCache g) key val\<rparr>"]
      by (simp add: populateCache_def)
  qed
qed



lemma new_seg_ok:
  "seg_ok \<lparr>nbytes = 0, lru = None, nhit = h, nget = n, nevict = e, cacheName = nm\<rparr>"
  by (simp add: seg_ok_def cache_entries_def)

text \<open>
  The map and the list of a segment hold the same keys after every operation, and
  \<open>nbytes\<close> stays accurate under \<open>get\<close>, \<open>removeOldest\<close> and the \<open>add\<close> of a key that
  is not in the segment; these are the lemmas above. An \<open>add\<close> of a key that is in the
  segment is different.

  C3. \<open>cache.add\<close> adds the size of the new entry to \<open>nbytes\<close> also when \<open>lru.Add\<close>
  overwrites the value of a key that is present, and nothing subtracts the size of the
  entry that is replaced. After \<open>add("a", "x")\<close> and \<open>add("a", "y")\<close> on a new segment there
  is one entry of size 2 and \<open>nbytes\<close> is 4.
\<close>

theorem cache_add_overwrite_bytes:
  "cache_entries (cache_add (cache_add (mainCache example_group) ''a'' \<lparr>b = None, s = ''x''\<rparr>)
                    ''a'' \<lparr>b = None, s = ''y''\<rparr>) = [(''a'', \<lparr>b = None, s = ''y''\<rparr>)] \<and>
   sum_list (map entry_size
     (cache_entries (cache_add (cache_add (mainCache example_group) ''a'' \<lparr>b = None, s = ''x''\<rparr>)
                    ''a'' \<lparr>b = None, s = ''y''\<rparr>))) = 2 \<and>
   nbytes (cache_add (cache_add (mainCache example_group) ''a'' \<lparr>b = None, s = ''x''\<rparr>)
                    ''a'' \<lparr>b = None, s = ''y''\<rparr>) = 4"
  by (simp add: example_group_def newGroup_def cache_add_def lru_Add_def MoveToFront_def
      cache_entries_def entries_def entry_size_def Let_def Len_def map_filter_simps)

section \<open>The eviction loop\<close>

lemma evict_victim_nonempty:
  assumes "seg_ok (mainCache g)" "seg_ok (hotCache g)" "0 \<le> cacheBytes g"
    and "cacheBytes g < cache_bytes (mainCache g) + cache_bytes (hotCache g)"
  shows "if go_div (cache_bytes (mainCache g)) 8 < cache_bytes (hotCache g)
         then cache_entries (hotCache g) \<noteq> [] else cache_entries (mainCache g) \<noteq> []"
proof -
  let ?mb = "cache_bytes (mainCache g)" and ?hb = "cache_bytes (hotCache g)"
  have nn: "0 \<le> ?mb" "0 \<le> ?hb"
    using assms by (simp_all add: cache_bytes_def seg_ok_nonneg)
  show ?thesis
  proof (cases "go_div ?mb 8 < ?hb")
    case True
    then have "0 < nbytes (hotCache g)"
      using nn pos_imp_zdiv_nonneg_iff [of 8 "nbytes (mainCache g)"]
      by (simp add: go_div_nonneg cache_bytes_def)
    then show ?thesis using True assms(2) seg_ok_pos_nonempty by auto
  next
    case False
    then have "0 < nbytes (mainCache g)" using nn assms(3,4)
      by (cases "nbytes (mainCache g) = 0") (simp_all add: go_div_nonneg cache_bytes_def)
    then show ?thesis using False assms(1) seg_ok_pos_nonempty by auto
  qed
qed



text \<open>
  The budget on accurate segments. Whenever \<open>populateCache\<close> returns on a group with a
  positive budget, the bytes of the main and the hot segment together are at most the
  budget. It does return when both segments are accurate and the key is not yet in the
  segment it is added to. In each iteration of the loop, that is while the sum exceeds
  the budget, the victim is the hot segment if \<open>hotBytes > mainBytes / 8\<close> and the main
  segment otherwise; on accurate segments the victim is not empty and loses exactly its
  oldest entry, the last of its recency list.
\<close>

theorem populateCache_budget:
  "(0 < cacheBytes g \<and> populateCache g key val which = Some g' \<longrightarrow>
      cache_bytes (mainCache g') + cache_bytes (hotCache g') \<le> cacheBytes g' \<and>
      cacheBytes g' = cacheBytes g) \<and>
   (seg_ok (mainCache g) \<and> seg_ok (hotCache g) \<and>
    key \<notin> fst ` set (cache_entries (seg_of which g)) \<longrightarrow>
      populateCache g key val which \<noteq> None) \<and>
   (0 < cacheBytes st \<and> seg_ok (mainCache st) \<and> seg_ok (hotCache st) \<and>
    cacheBytes st < cache_bytes (mainCache st) + cache_bytes (hotCache st) \<longrightarrow>
      (if go_div (cache_bytes (mainCache st)) 8 < cache_bytes (hotCache st)
       then evictLoop st = evictLoop (st\<lparr>hotCache := cache_removeOldest (hotCache st)\<rparr>) \<and>
            cache_entries (hotCache st) \<noteq> [] \<and>
            cache_entries (cache_removeOldest (hotCache st)) = butlast (cache_entries (hotCache st))
       else evictLoop st = evictLoop (st\<lparr>mainCache := cache_removeOldest (mainCache st)\<rparr>) \<and>
            cache_entries (mainCache st) \<noteq> [] \<and>
            cache_entries (cache_removeOldest (mainCache st)) = butlast (cache_entries (mainCache st))))"
proof (intro conjI impI)
  assume "0 < cacheBytes g \<and> populateCache g key val which = Some g'"
  then show "cache_bytes (mainCache g') + cache_bytes (hotCache g') \<le> cacheBytes g'"
    and "cacheBytes g' = cacheBytes g"
    using populateCache_post [of g key val which g'] by simp_all
next
  assume "seg_ok (mainCache g) \<and> seg_ok (hotCache g) \<and>
    key \<notin> fst ` set (cache_entries (seg_of which g))"
  then show "populateCache g key val which \<noteq> None"
    using populateCache_terminates [of g key which val] by auto
next
  assume h: "0 < cacheBytes st \<and> seg_ok (mainCache st) \<and> seg_ok (hotCache st) \<and>
    cacheBytes st < cache_bytes (mainCache st) + cache_bytes (hotCache st)"
  then have step: "evictLoop st =
        (if go_div (cache_bytes (mainCache st)) 8 < cache_bytes (hotCache st)
         then evictLoop (st\<lparr>hotCache := cache_removeOldest (hotCache st)\<rparr>)
         else evictLoop (st\<lparr>mainCache := cache_removeOldest (mainCache st)\<rparr>))"
    by (subst evictLoop.simps) simp
  have ne: "if go_div (cache_bytes (mainCache st)) 8 < cache_bytes (hotCache st)
         then cache_entries (hotCache st) \<noteq> [] else cache_entries (mainCache st) \<noteq> []"
    using h by (intro evict_victim_nonempty) simp_all
  show "if go_div (cache_bytes (mainCache st)) 8 < cache_bytes (hotCache st)
       then evictLoop st = evictLoop (st\<lparr>hotCache := cache_removeOldest (hotCache st)\<rparr>) \<and>
            cache_entries (hotCache st) \<noteq> [] \<and>
            cache_entries (cache_removeOldest (hotCache st)) = butlast (cache_entries (hotCache st))
       else evictLoop st = evictLoop (st\<lparr>mainCache := cache_removeOldest (mainCache st)\<rparr>) \<and>
            cache_entries (mainCache st) \<noteq> [] \<and>
            cache_entries (cache_removeOldest (mainCache st)) = butlast (cache_entries (mainCache st))"
    using step ne h by (simp add: cache_removeOldest_entries)
qed

theorem populateCache_budget_witness:
  "0 < cacheBytes (example_group\<lparr>mainCache :=
         cache_add (mainCache example_group) ''a'' \<lparr>b = None, s = ''xyz''\<rparr>\<rparr>) \<and>
   (\<exists>g'. populateCache (example_group\<lparr>mainCache :=
              cache_add (mainCache example_group) ''a'' \<lparr>b = None, s = ''xyz''\<rparr>\<rparr>)
            ''b'' \<lparr>b = None, s = ''cd''\<rparr> MainCache = Some g' \<and>
         cache_bytes (mainCache g') + cache_bytes (hotCache g') \<le> 5) \<and>
   cache_bytes (cache_add (cache_add (mainCache example_group) ''a'' \<lparr>b = None, s = ''xyz''\<rparr>)
                    ''b'' \<lparr>b = None, s = ''cd''\<rparr>) = 7 \<and>
   evictLoop (example_group\<lparr>mainCache :=
        cache_add (cache_add (mainCache example_group) ''a'' \<lparr>b = None, s = ''xyz''\<rparr>)
                  ''b'' \<lparr>b = None, s = ''cd''\<rparr>\<rparr>) =
   evictLoop (example_group\<lparr>mainCache := cache_removeOldest
        (cache_add (cache_add (mainCache example_group) ''a'' \<lparr>b = None, s = ''xyz''\<rparr>)
                  ''b'' \<lparr>b = None, s = ''cd''\<rparr>)\<rparr>) \<and>
   cache_entries (cache_add (cache_add (mainCache example_group) ''a'' \<lparr>b = None, s = ''xyz''\<rparr>)
                    ''b'' \<lparr>b = None, s = ''cd''\<rparr>)
     = [(''b'', \<lparr>b = None, s = ''cd''\<rparr>), (''a'', \<lparr>b = None, s = ''xyz''\<rparr>)] \<and>
   cache_entries (cache_removeOldest
        (cache_add (cache_add (mainCache example_group) ''a'' \<lparr>b = None, s = ''xyz''\<rparr>)
                  ''b'' \<lparr>b = None, s = ''cd''\<rparr>)) = [(''b'', \<lparr>b = None, s = ''cd''\<rparr>)]"
proof -
  let ?va = "\<lparr>b = None, s = ''xyz''\<rparr>" and ?vb = "\<lparr>b = None, s = ''cd''\<rparr>"
  let ?c1 = "cache_add (mainCache example_group) ''a'' ?va"
  let ?c2 = "cache_add ?c1 ''b'' ?vb"
  let ?G1 = "example_group\<lparr>mainCache := ?c1\<rparr>" and ?G2 = "example_group\<lparr>mainCache := ?c2\<rparr>"
  have ok0: "seg_ok (mainCache example_group)" "seg_ok (hotCache example_group)"
    and e0: "cache_entries (mainCache example_group) = []"
    by (simp_all add: example_group_def newGroup_def new_seg_ok cache_entries_def)
  have ok1: "seg_ok ?c1" and e1: "cache_entries ?c1 = [(''a'', ?va)]"
    using cache_add_fresh [OF ok0(1), of "''a''" ?va] by (simp_all add: e0)
  have ok2: "seg_ok ?c2" and e2: "cache_entries ?c2 = [(''b'', ?vb), (''a'', ?va)]"
    using cache_add_fresh [OF ok1, of "''b''" ?vb] by (simp_all add: e1)
  have "nbytes ?c2 = sum_list (map entry_size (cache_entries ?c2))"
    using ok2 by (simp add: seg_ok_def)
  then have "cache_bytes ?c2 = 7"
    by (simp only: e2 cache_bytes_def) (simp add: entry_size_def Len_def)
  moreover have "cache_bytes (hotCache example_group) = 0" "cacheBytes example_group = 5"
    by (simp_all add: cache_bytes_def example_group_def newGroup_def)
  ultimately have b2: "cache_bytes ?c2 = 7" "cache_bytes (hotCache example_group) = 0"
    "cacheBytes example_group = 5"
    by simp_all
  note T = populateCache_budget [of ?G1 "''b''" ?vb MainCache _ ?G2]
  have "populateCache ?G1 ''b'' ?vb MainCache \<noteq> None"
    using T ok0 ok1 by (simp add: seg_of_def e1)
  then obtain g' where g': "populateCache ?G1 ''b'' ?vb MainCache = Some g'" by auto
  have "cache_bytes (mainCache g') + cache_bytes (hotCache g') \<le> 5"
    using populateCache_budget [of ?G1 "''b''" ?vb MainCache g' ?G2] g' b2 by simp
  moreover have "evictLoop ?G2 = evictLoop (?G2\<lparr>mainCache := cache_removeOldest ?c2\<rparr>) \<and>
      cache_entries (cache_removeOldest ?c2) = [(''b'', ?vb)]"
    using T b2 ok0 ok2 by (simp add: go_div_def e2)
  ultimately show ?thesis using g' b2 e2 by simp
qed

text \<open>
  When the victim of an iteration has nothing to give, the loop does not end: the group
  is over its budget and \<open>removeOldest\<close> leaves the victim as it is, so every iteration
  starts from the same group.
\<close>

lemma evictLoop_stuck:
  assumes over: "cacheBytes g < cache_bytes (mainCache g) + cache_bytes (hotCache g)"
    and stuck: "if go_div (cache_bytes (mainCache g)) 8 < cache_bytes (hotCache g)
         then cache_removeOldest (hotCache g) = hotCache g
         else cache_removeOldest (mainCache g) = mainCache g"
  shows "evictLoop g = None"
proof (rule ccontr)
  assume "evictLoop g \<noteq> None"
  then obtain g' where ret: "evictLoop g = Some g'" by auto
  have "g \<noteq> g"
  proof (rule evictLoop.raw_induct [where P = "\<lambda>x y. x \<noteq> g", OF _ ret])
    fix f and x y :: "'a Group"
    assume IH: "\<And>x y. f x = Some y \<Longrightarrow> x \<noteq> g"
      and body: "(let mainBytes = cache_bytes (mainCache x);
          hotBytes = cache_bytes (hotCache x)
      in if mainBytes + hotBytes \<le> cacheBytes x then Some x
         else if hotBytes > go_div mainBytes 8
              then f (x\<lparr>hotCache := cache_removeOldest (hotCache x)\<rparr>)
              else f (x\<lparr>mainCache := cache_removeOldest (mainCache x)\<rparr>)) = Some y"
    show "x \<noteq> g"
    proof
      assume "x = g"
      then have "f g = Some y"
        using body over stuck by (simp add: Let_def split: if_splits)
      then show False using IH by blast
    qed
  qed
  then show False by simp
qed

text \<open>The three other ways an iteration can go, as rules to run the loop on a given group.\<close>

lemma evictLoop_return:
  "cache_bytes (mainCache g) + cache_bytes (hotCache g) \<le> cacheBytes g \<Longrightarrow> evictLoop g = Some g"
  by (subst evictLoop.simps) simp

lemma evictLoop_hot:
  "cacheBytes g < cache_bytes (mainCache g) + cache_bytes (hotCache g) \<Longrightarrow>
   go_div (cache_bytes (mainCache g)) 8 < cache_bytes (hotCache g) \<Longrightarrow>
   cache_removeOldest (hotCache g) \<noteq> hotCache g \<Longrightarrow>
   evictLoop g = evictLoop (g\<lparr>hotCache := cache_removeOldest (hotCache g)\<rparr>)"
  by (subst evictLoop.simps) simp

lemma evictLoop_main:
  "cacheBytes g < cache_bytes (mainCache g) + cache_bytes (hotCache g) \<Longrightarrow>
   \<not> go_div (cache_bytes (mainCache g)) 8 < cache_bytes (hotCache g) \<Longrightarrow>
   cache_removeOldest (mainCache g) \<noteq> mainCache g \<Longrightarrow>
   evictLoop g = evictLoop (g\<lparr>mainCache := cache_removeOldest (mainCache g)\<rparr>)"
  by (subst evictLoop.simps) simp

lemmas race_defs = raced_group_def racing_Gets_def newGroup_def entered_def initPeers_def
  stat_add_def lookupCache_def cache_get_def Let_def load_def Do_seq_def load_fn_def
  load_local_def getLocally_def prefix_getter_def stringSink_def stringSink_SetString_def
  remote_picker_def half_dead_peer_def getFromPeer_def populateCache_def cache_add_def
  lru_Add_def MoveToFront_def cache_bytes_def go_div_def cache_removeOldest_def
  lru_RemoveOldest_def lru_removeElement_def Back_def onEvicted_def Len_def
  cache_entries_def entries_def map_filter_simps lru_Get_def
  evictLoop_return evictLoop_hot evictLoop_main evictLoop_stuck

text \<open>
  C1. The segments do not stay accurate (C3), and then the budget is not enforced as
  the claim has it. Take a group with a budget of 5 bytes whose peer serves the key \<open>a\<close>
  with the value \<open>xyz\<close>. Two calls of \<open>Get\<close> for \<open>a\<close> that both look the key up before
  either loads it both fetch the value from the peer (the second finds no call in
  flight, the first has returned), and both add it to the hot segment when the random
  source gives 0. The second \<open>add\<close> overwrites: \<open>nbytes\<close> of hot is 8, over the budget, and
  the eviction of the one entry leaves hot empty with \<open>nbytes = 4\<close>. A later
  \<open>populateCache\<close> of the main segment with the key \<open>c\<close> and a value of 3 bytes counts
  \<open>4 + 4 > 5\<close> bytes and takes hot as its victim, since \<open>4 > 4 / 8\<close>. The hot segment has no
  entry, \<open>removeOldest\<close> leaves it as it is, and the loop does not end: no entry is removed
  in an iteration, and \<open>populateCache\<close> never completes.
\<close>

theorem populateCache_spins:
  "raced_group \<noteq> None \<and>
   cacheBytes (the raced_group) = 5 \<and>
   cache_entries (mainCache (the raced_group)) = [] \<and>
   cache_bytes (mainCache (the raced_group)) = 0 \<and>
   cache_entries (hotCache (the raced_group)) = [] \<and>
   cache_bytes (hotCache (the raced_group)) = 4 \<and>
   cache_bytes (cache_add (mainCache (the raced_group)) ''c'' \<lparr>b = None, s = ''v:c''\<rparr>) = 4 \<and>
   go_div (cache_bytes (cache_add (mainCache (the raced_group)) ''c'' \<lparr>b = None, s = ''v:c''\<rparr>)) 8
     < cache_bytes (hotCache (the raced_group)) \<and>
   cache_removeOldest (hotCache (the raced_group)) = hotCache (the raced_group) \<and>
   populateCache (the raced_group) ''c'' \<lparr>b = None, s = ''v:c''\<rparr> MainCache = None"
proof -
  define G where "G = the raced_group"
  define M where "M = cache_add (mainCache G) ''c'' \<lparr>b = None, s = ''v:c''\<rparr>"
  have race: "raced_group \<noteq> None"
    by (simp add: race_defs)
  have budget: "cacheBytes G = 5"
    and main: "cache_entries (mainCache G) = []" "cache_bytes (mainCache G) = 0"
    and hot: "cache_entries (hotCache G) = []" "cache_bytes (hotCache G) = 4"
    and added: "cache_bytes M = 4"
    and same: "cache_removeOldest (hotCache G) = hotCache G"
    unfolding G_def M_def by (simp_all add: race_defs)
  have victim: "go_div (cache_bytes M) 8 < cache_bytes (hotCache G)"
    by (simp add: added hot go_div_def)
  have "populateCache G ''c'' \<lparr>b = None, s = ''v:c''\<rparr> MainCache = evictLoop (G\<lparr>mainCache := M\<rparr>)"
    by (simp add: populateCache_def budget M_def)
  also have "\<dots> = None"
    by (rule evictLoop_stuck) (simp_all add: budget added hot same go_div_def)
  finally show ?thesis
    using race budget main hot added victim same unfolding G_def M_def by simp
qed



section \<open>Properties of Get\<close>

lemma entered_fields:
  "cacheBytes (entered pp g) = cacheBytes g"
  "mainCache (entered pp g) = mainCache g"
  "hotCache (entered pp g) = hotCache g"
  "loadGroup (entered pp g) = loadGroup g"
  "name (entered pp g) = name g"
  "getter (entered pp g) = getter g"
  "peers (entered pp g) = Group_peers pp g"
  "Stats (entered pp g) = Gets_update (\<lambda>i. i + 1) (Stats g)"
  by (simp_all add: entered_def stat_add_def initPeers_def Group_peers_def)

lemma lookupCache_frame:
  assumes "cacheBytes h = cacheBytes g" "mainCache h = mainCache g" "hotCache h = hotCache g"
  shows "lookupCache h key =
     (case lookupCache g key of
        (g2, v, hit) \<Rightarrow> (h\<lparr>mainCache := mainCache g2, hotCache := hotCache g2\<rparr>, v, hit))"
  using assms
  by (simp add: lookupCache_def split_beta Let_def split: option.splits)

lemma lookupCache_off:
  "cacheBytes g \<le> 0 \<Longrightarrow> lookupCache g key = (g, \<lparr>b = None, s = []\<rparr>, False)"
  by (simp add: lookupCache_def)

lemma populateCache_off:
  "cacheBytes g \<le> 0 \<Longrightarrow> populateCache g key val which = Some g"
  by (simp add: populateCache_def)

lemma Group_Get_unfold:
  "Group_Get g pp intn key dest =
     (case dest of
           None \<Rightarrow> Some (Some (ErrorString ''groupcache: nil dest Sink''), None, entered pp g)
         | Some (sk, d) \<Rightarrow>
             (case lookupCache (entered pp g) key of (g2, val, cacheHit) \<Rightarrow>
                if cacheHit
                then (case setSinkView sk d val of
                        (e, d1) \<Rightarrow> Some (e, Some (sk, d1), stat_add CacheHits_update 1 g2))
                else (case load g2 intn key sk d of
                        None \<Rightarrow> None
                      | Some (val1, destPopulated, err, d1, g3) \<Rightarrow>
                          if err \<noteq> None then Some (err, Some (sk, d1), g3)
                          else if destPopulated then Some (None, Some (sk, d1), g3)
                          else (case setSinkView sk d1 val1 of
                                  (e, d2) \<Rightarrow> Some (e, Some (sk, d2), g3)))))"
  by (simp only: Group_Get_def entered_def Let_def)


lemma stat_add_fields [simp]:
  "name (stat_add u n g) = name g"
  "getter (stat_add u n g) = getter g"
  "peers (stat_add u n g) = peers g"
  "peersOnce (stat_add u n g) = peersOnce g"
  "cacheBytes (stat_add u n g) = cacheBytes g"
  "mainCache (stat_add u n g) = mainCache g"
  "hotCache (stat_add u n g) = hotCache g"
  "loadGroup (stat_add u n g) = loadGroup g"
  "Stats (stat_add u n g) = u (\<lambda>i. i + n) (Stats g)"
  by (simp_all add: stat_add_def)

lemma Do_seq_idle:
  assumes "idle fg key"
  shows "Do_seq fg key fn st =
     (case fn st of
        None \<Rightarrow> None
      | Some (r, st1) \<Rightarrow>
          Some (r, \<lparr>flight_m = Some ((case flight_m fg of None \<Rightarrow> Map.empty | Some mp \<Rightarrow> mp)
                                      (key := None)),
                   calls = (calls fg)(nextCall fg \<mapsto>
                             \<lparr>call_wg = 0, call_val = fst r, call_err = snd r\<rparr>),
                   nextCall = Suc (nextCall fg)\<rparr>, st1))"
  using assms
  by (auto simp: Do_seq_def idle_def Let_def split: option.splits)

lemma Do_seq_idle_after:
  "idle \<lparr>flight_m = Some (mp(key := None)), calls = cs, nextCall = n\<rparr> key"
  by (simp add: idle_def)


lemma load_idle:
  assumes "idle (loadGroup g) key"
  shows "load g intn key sk d =
     (case load_fn intn key sk (stat_add Loads_update 1 g, d, False) of
        None \<Rightarrow> None
      | Some ((viewi, err), (g1, d1, destPopulated)) \<Rightarrow>
          (let g2 = g1\<lparr>loadGroup :=
                 \<lparr>flight_m = Some ((case flight_m (loadGroup g) of None \<Rightarrow> Map.empty | Some mp \<Rightarrow> mp)
                                      (key := None)),
                   calls = (calls (loadGroup g))(nextCall (loadGroup g) \<mapsto>
                             \<lparr>call_wg = 0, call_val = viewi, call_err = err\<rparr>),
                   nextCall = Suc (nextCall (loadGroup g))\<rparr>\<rparr>
           in case err of
                Some e \<Rightarrow> Some (\<lparr>b = None, s = []\<rparr>, destPopulated, Some e, d1, g2)
              | None \<Rightarrow>
                  (case viewi of
                     None \<Rightarrow> None
                   | Some val \<Rightarrow> Some (val, destPopulated, None, d1, g2))))"
  using assms
  by (simp add: load_def Do_seq_idle Let_def split: option.splits prod.splits)

lemma load_local_error:
  assumes "getter g key sk d = (Some e, d1)"
  shows "load_local key sk (g, d, dp) =
           Some ((None, Some e), (stat_add LocalLoadErrs_update 1 g, d1, dp))"
  using assms by (simp add: load_local_def getLocally_def)

lemma getFromPeer_error:
  "peer (name g) key = Inl e \<Longrightarrow> getFromPeer g intn peer key = Some (Inl e, g)"
  by (simp add: getFromPeer_def)

lemma load_fn_local:
  assumes "peers g = Some pk"
    and "pk key = None"
  shows "load_fn intn key sk (g, d, dp) =
           load_local key sk (stat_add LoadsDeduped_update 1 g, d, dp)"
  using assms by (simp add: load_fn_def)

lemma load_fn_peer_error:
  assumes "peers g = Some pk"
    and "pk key = Some peer" "peer (name g) key = Inl e"
  shows "load_fn intn key sk (g, d, dp) =
           load_local key sk
             (stat_add PeerErrors_update 1 (stat_add LoadsDeduped_update 1 g), d, dp)"
  using assms by (simp add: load_fn_def getFromPeer_error)


lemma load_local_off:
  assumes "cacheBytes g \<le> 0"
  shows "\<exists>r g1 d1 dp1. load_local key sk (g, d, dp) = Some (r, (g1, d1, dp1)) \<and>
           (snd r = None \<longrightarrow> fst r \<noteq> None) \<and>
           mainCache g1 = mainCache g \<and> hotCache g1 = hotCache g \<and>
           Loads (Stats g1) = Loads (Stats g) \<and>
           LoadsDeduped (Stats g1) = LoadsDeduped (Stats g) \<and>
           loadGroup g1 = loadGroup g"
  using assms
  by (auto simp: load_local_def populateCache_off split: prod.splits sum.splits)

lemma load_fn_off:
  assumes "cacheBytes g \<le> 0" "peers g \<noteq> None"
  shows "\<exists>r g1 d1 dp1. load_fn intn key sk (g, d, dp) = Some (r, (g1, d1, dp1)) \<and>
           (snd r = None \<longrightarrow> fst r \<noteq> None) \<and>
           mainCache g1 = mainCache g \<and> hotCache g1 = hotCache g \<and>
           Loads (Stats g1) = Loads (Stats g) \<and>
           LoadsDeduped (Stats g1) = LoadsDeduped (Stats g) + 1 \<and>
           loadGroup g1 = loadGroup g"
proof -
  obtain pk where pk: "peers g = Some pk" using assms(2) by auto
  let ?g = "stat_add LoadsDeduped_update 1 g"
  have off: "cacheBytes ?g \<le> 0" using assms(1) by simp
  show ?thesis
  proof (cases "pk key")
    case None
    show ?thesis
      using load_local_off [OF off, of key sk d dp]
      by (simp add: load_fn_local [OF pk None])
  next
    case (Some peer)
    show ?thesis
    proof (cases "peer (name g) key")
      case (Inl e)
      have off': "cacheBytes (stat_add PeerErrors_update 1 ?g) \<le> 0" using assms(1) by simp
      show ?thesis
        using load_local_off [OF off', of key sk d dp]
        by (simp add: load_fn_peer_error [OF pk Some Inl])
    next
      case (Inr v)
      then show ?thesis
        using off by (simp add: load_fn_def pk Some getFromPeer_def populateCache_off Let_def)
    qed
  qed
qed

lemma load_off_frame:
  assumes "cacheBytes g \<le> 0" "load g intn key sk d = Some (v, dp, err, d1, g1)"
  shows "mainCache g1 = mainCache g \<and> hotCache g1 = hotCache g \<and>
         Loads (Stats g1) = Loads (Stats g) + 1"
proof (cases "idle (loadGroup g) key")
  case True
  show ?thesis
  proof (cases "peers g")
    case None
    then show ?thesis using assms(2) by (simp add: load_idle [OF True] load_fn_def)
  next
    case (Some pk)
    have off: "cacheBytes (stat_add Loads_update 1 g) \<le> 0" using assms(1) by simp
    have pk: "peers (stat_add Loads_update 1 g) \<noteq> None" using Some by simp
    from load_fn_off [OF off pk, of intn key sk d False] assms(2)
    show ?thesis
      by (auto simp: load_idle [OF True] Let_def split: option.splits)
  qed
next
  case False
  then show ?thesis
    using assms(2)
    by (auto simp: load_def Do_seq_def idle_def Let_def split: option.splits if_splits)
qed

text \<open>
  C10. On a group whose budget is at most 0, \<open>lookupCache\<close> misses whatever the segments
  hold and leaves the group as it is, and \<open>populateCache\<close> returns the group as it is.
  So a \<open>Get\<close> that returns leaves both segments as they were and, given a sink, has
  gone through \<open>load\<close> (the counter \<open>Loads\<close> is one higher). Given a sink, with no call
  for the key in flight and a peer picker in place, \<open>Get\<close> does return and has run the
  load closure (the counter \<open>LoadsDeduped\<close> is one higher).
\<close>

theorem zero_budget_bypasses_cache:
  assumes "cacheBytes g \<le> 0"
  shows "lookupCache g key = (g, \<lparr>b = None, s = []\<rparr>, False) \<and>
         populateCache g key val which = Some g \<and>
         (Group_Get g pp intn key dest = Some (e, d', g') \<longrightarrow>
            mainCache g' = mainCache g \<and> hotCache g' = hotCache g \<and>
            (dest \<noteq> None \<longrightarrow> Loads (Stats g') = Loads (Stats g) + 1)) \<and>
         (dest \<noteq> None \<and> idle (loadGroup g) key \<and> (peersOnce g \<longrightarrow> peers g \<noteq> None) \<longrightarrow>
            (\<exists>e1 d1 g1. Group_Get g pp intn key dest = Some (e1, d1, g1) \<and>
               LoadsDeduped (Stats g1) = LoadsDeduped (Stats g) + 1))"
proof (intro conjI impI)
  show "lookupCache g key = (g, \<lparr>b = None, s = []\<rparr>, False)"
    using assms by (rule lookupCache_off)
  show "populateCache g key val which = Some g"
    using assms by (rule populateCache_off)
  have off: "cacheBytes (entered pp g) \<le> 0" using assms by (simp add: entered_fields)
  note look = lookupCache_off [OF off, of key]
  {
    assume get: "Group_Get g pp intn key dest = Some (e, d', g')"
    show "mainCache g' = mainCache g" "hotCache g' = hotCache g"
      using get load_off_frame [OF off, of intn key]
      by (auto simp: Group_Get_unfold look entered_fields
          split: option.splits prod.splits if_splits)
    assume "dest \<noteq> None"
    then show "Loads (Stats g') = Loads (Stats g) + 1"
      using get load_off_frame [OF off, of intn key]
      by (auto simp: Group_Get_unfold look entered_fields
          split: option.splits prod.splits if_splits)
  }
  assume h: "dest \<noteq> None \<and> idle (loadGroup g) key \<and> (peersOnce g \<longrightarrow> peers g \<noteq> None)"
  then obtain sk d where dest: "dest = Some (sk, d)" by auto
  have idle: "idle (loadGroup (entered pp g)) key" using h by (simp add: entered_fields)
  have pk: "peers (stat_add Loads_update 1 (entered pp g)) \<noteq> None"
    using h by (auto simp: entered_fields Group_peers_def initPeers_def)
  have off': "cacheBytes (stat_add Loads_update 1 (entered pp g)) \<le> 0" using off by simp
  from load_fn_off [OF off' pk, of intn key sk d False]
  show "\<exists>e1 d1 g1. Group_Get g pp intn key dest = Some (e1, d1, g1) \<and>
               LoadsDeduped (Stats g1) = LoadsDeduped (Stats g) + 1"
    by (auto simp: Group_Get_unfold look dest load_idle [OF idle] Let_def entered_fields
        split: option.splits prod.splits)
qed


lemma map_filter_remove1_None:
  "f e = None \<Longrightarrow> List.map_filter f (remove1 e l) = List.map_filter f l"
  by (induction l) (auto simp: map_filter_simps split: option.splits)

lemma lru_Get_miss_entries:
  assumes "snd (lru_Get c key) = None"
  shows "entries (fst (lru_Get c key)) = entries c"
proof (cases "cache c")
  case None
  then show ?thesis by (simp add: lru_Get_def)
next
  case (Some m)
  show ?thesis
  proof (cases "m key")
    case None
    then show ?thesis by (simp add: lru_Get_def Some)
  next
    case (Some ele)
    then have "elems c ele = None"
      using assms by (simp add: lru_Get_def \<open>cache c = Some m\<close>)
    then show ?thesis
      by (simp add: lru_Get_def Some \<open>cache c = Some m\<close> entries_def MoveToFront_def
          map_filter_simps map_filter_remove1_None)
  qed
qed

lemma cache_get_miss:
  assumes "cache_get c key = (c1, None)"
  shows "cache_entries c1 = cache_entries c" "nbytes c1 = nbytes c" "nevict c1 = nevict c"
proof -
  have "cache_entries c1 = cache_entries c \<and> nbytes c1 = nbytes c \<and> nevict c1 = nevict c"
  proof (cases "lru c")
    case None
    then show ?thesis using assms by (auto simp: cache_get_def cache_entries_def)
  next
    case (Some l)
    obtain l1 vi where g: "lru_Get l key = (l1, vi)" by (cases "lru_Get l key")
    have vi: "vi = None" and c1: "c1 = c\<lparr>nget := nget c + 1, lru := Some l1\<rparr>"
      using assms by (auto simp: cache_get_def Some g Let_def split: option.splits)
    have "entries l1 = entries l"
      using lru_Get_miss_entries [of l key] by (simp add: g vi)
    then show ?thesis by (simp add: c1 cache_entries_def Some)
  qed
  then show "cache_entries c1 = cache_entries c" "nbytes c1 = nbytes c" "nevict c1 = nevict c"
    by simp_all
qed

lemma lookupCache_miss:
  assumes "lookupCache g key = (g2, v, False)"
  shows "cache_entries (mainCache g2) = cache_entries (mainCache g) \<and>
     nbytes (mainCache g2) = nbytes (mainCache g) \<and>
     cache_entries (hotCache g2) = cache_entries (hotCache g) \<and>
     nbytes (hotCache g2) = nbytes (hotCache g) \<and>
     cacheBytes g2 = cacheBytes g"
proof (cases "cacheBytes g \<le> 0")
  case True
  then show ?thesis using assms by (simp add: lookupCache_def)
next
  case False
  obtain mc r1 where m: "cache_get (mainCache g) key = (mc, r1)"
    by (cases "cache_get (mainCache g) key")
  obtain hc r2 where h: "cache_get (hotCache g) key = (hc, r2)"
    by (cases "cache_get (hotCache g) key")
  have r: "r1 = None" "r2 = None" and g2: "g2 = g\<lparr>mainCache := mc, hotCache := hc\<rparr>"
    using assms False by (auto simp: lookupCache_def m h Let_def split: option.splits)
  show ?thesis
    using cache_get_miss [of "mainCache g" key mc] cache_get_miss [of "hotCache g" key hc]
    by (simp add: g2 m h r)
qed


lemma load_fn_loader_error:
  assumes "peers g = Some pk"
    and "pk key = None \<or> (\<exists>peer e'. pk key = Some peer \<and> peer (name g) key = Inl e')"
    and "getter g key sk d = (Some e, d1)"
  shows "\<exists>g1. load_fn intn key sk (g, d, dp) = Some ((None, Some e), (g1, d1, dp)) \<and>
           mainCache g1 = mainCache g \<and> hotCache g1 = hotCache g \<and>
           LocalLoadErrs (Stats g1) = LocalLoadErrs (Stats g) + 1"
  using assms(2)
proof
  assume "pk key = None"
  then show ?thesis
    using assms(3) by (simp add: load_fn_local [OF assms(1)] load_local_error)
next
  assume "\<exists>peer e'. pk key = Some peer \<and> peer (name g) key = Inl e'"
  then obtain peer e' where p: "pk key = Some peer" "peer (name g) key = Inl e'" by auto
  show ?thesis
    using assms(3) by (simp add: load_fn_peer_error [OF assms(1) p] load_local_error)
qed

text \<open>
  C5. Take a key that is in neither segment, with no call for it in flight, for which the
  peer picker names no peer or names one whose request fails. If the getter returns the
  error \<open>e\<close>, then \<open>Get\<close> returns exactly \<open>e\<close>, the counter \<open>LocalLoadErrs\<close> is one
  higher, and the entries and the byte count of the main and of the hot segment are what
  they were.
\<close>

theorem Get_loader_error:
  assumes miss: "lookupCache g key = (g2, v0, False)"
    and pick: "Group_peers pp g = Some pk"
    and local: "pk key = None \<or> (\<exists>peer e'. pk key = Some peer \<and> peer (name g) key = Inl e')"
    and fail: "getter g key sk d = (Some e, d1)"
    and idle: "idle (loadGroup g) key"
  shows "\<exists>g'. Group_Get g pp intn key (Some (sk, d)) = Some (Some e, Some (sk, d1), g') \<and>
      LocalLoadErrs (Stats g') = LocalLoadErrs (Stats g) + 1 \<and>
      cache_entries (mainCache g') = cache_entries (mainCache g) \<and>
      nbytes (mainCache g') = nbytes (mainCache g) \<and>
      cache_entries (hotCache g') = cache_entries (hotCache g) \<and>
      nbytes (hotCache g') = nbytes (hotCache g)"
proof -
  define h where "h = (entered pp g)\<lparr>mainCache := mainCache g2, hotCache := hotCache g2\<rparr>"
  have look: "lookupCache (entered pp g) key = (h, v0, False)"
    using lookupCache_frame [of "entered pp g" g key] by (simp add: entered_fields miss h_def)
  let ?h1 = "stat_add Loads_update 1 h"
  have h1: "peers h = Some pk" "name h = name g" "getter h = getter g"
    "mainCache h = mainCache g2" "hotCache h = hotCache g2"
    "LocalLoadErrs (Stats h) = LocalLoadErrs (Stats g)"
    by (simp_all add: h_def entered_fields pick)
  have idle': "idle (loadGroup h) key" using idle by (simp add: h_def entered_fields)
  from load_fn_loader_error [of ?h1 pk key sk d e d1 intn False] local fail
  obtain g1 where g1: "load_fn intn key sk (?h1, d, False) = Some ((None, Some e), (g1, d1, False))"
    and fr: "mainCache g1 = mainCache g2" "hotCache g1 = hotCache g2"
      "LocalLoadErrs (Stats g1) = LocalLoadErrs (Stats g) + 1"
    by (auto simp: h1)
  show ?thesis
    using lookupCache_miss [OF miss] fr
    by (simp add: Group_Get_unfold look load_idle [OF idle'] g1 Let_def)
qed


lemma evictLoop_frame:
  assumes "evictLoop g = Some g'"
  shows "Stats g' = Stats g \<and> loadGroup g' = loadGroup g \<and> peers g' = peers g \<and>
         name g' = name g \<and> getter g' = getter g \<and> peersOnce g' = peersOnce g"
proof (rule evictLoop.raw_induct
    [where P = "\<lambda>g g'. Stats g' = Stats g \<and> loadGroup g' = loadGroup g \<and> peers g' = peers g \<and>
         name g' = name g \<and> getter g' = getter g \<and> peersOnce g' = peersOnce g", OF _ assms])
  fix f and x y :: "'a Group"
  assume IH: "\<And>x y. f x = Some y \<Longrightarrow>
      Stats y = Stats x \<and> loadGroup y = loadGroup x \<and> peers y = peers x \<and>
         name y = name x \<and> getter y = getter x \<and> peersOnce y = peersOnce x"
    and body: "(let mainBytes = cache_bytes (mainCache x);
          hotBytes = cache_bytes (hotCache x)
      in if mainBytes + hotBytes \<le> cacheBytes x then Some x
         else if hotBytes > go_div mainBytes 8
              then f (x\<lparr>hotCache := cache_removeOldest (hotCache x)\<rparr>)
              else f (x\<lparr>mainCache := cache_removeOldest (mainCache x)\<rparr>)) = Some y"
  show "Stats y = Stats x \<and> loadGroup y = loadGroup x \<and> peers y = peers x \<and>
         name y = name x \<and> getter y = getter x \<and> peersOnce y = peersOnce x"
    using body by (auto simp: Let_def split: if_splits dest!: IH)
qed

lemma populateCache_frame:
  assumes "populateCache g key val which = Some g'"
  shows "Stats g' = Stats g \<and> loadGroup g' = loadGroup g \<and> peers g' = peers g \<and>
         name g' = name g \<and> getter g' = getter g \<and> peersOnce g' = peersOnce g"
  using assms
  by (auto simp: populateCache_def split: if_splits CacheType.splits dest!: evictLoop_frame)

lemma lru_Get_miss_fresh:
  assumes "lru_inv c" "snd (lru_Get c key) = None"
  shows "key \<notin> fst ` set (entries c)"
proof (cases "cache c")
  case None
  then show ?thesis by (simp add: entries_def)
next
  case (Some m)
  note D = lru_invD [OF assms(1) Some]
  have "m key = None"
  proof (cases "m key")
    case None
    then show ?thesis .
  next
    case (Some ele)
    with D(3) [OF Some] assms(2) show ?thesis
      by (auto simp: lru_Get_def \<open>cache c = Some m\<close>)
  qed
  then show ?thesis using lru_keys [OF assms(1) Some] by auto
qed

lemma cache_get_miss_fresh:
  assumes "seg_ok c" "cache_get c key = (c1, None)"
  shows "key \<notin> fst ` set (cache_entries c)"
proof (cases "lru c")
  case None
  then show ?thesis by (simp add: cache_entries_def)
next
  case (Some l)
  obtain l1 vi where g: "lru_Get l key = (l1, vi)" by (cases "lru_Get l key")
  have vi: "vi = None"
    using assms(2) by (auto simp: cache_get_def Some g Let_def split: option.splits)
  have "lru_inv l" using assms(1) Some by (simp add: seg_ok_def)
  from lru_Get_miss_fresh [OF this, of key] show ?thesis
    by (simp add: g vi cache_entries_def Some)
qed

lemma lookupCache_miss_ok:
  assumes "lookupCache g key = (g2, v, False)" "seg_ok (mainCache g)" "seg_ok (hotCache g)"
  shows "seg_ok (mainCache g2) \<and> seg_ok (hotCache g2) \<and>
         (0 < cacheBytes g \<longrightarrow> key \<notin> fst ` set (cache_entries (mainCache g2)) \<and>
                                  key \<notin> fst ` set (cache_entries (hotCache g2)))"
proof (cases "cacheBytes g \<le> 0")
  case True
  then show ?thesis using assms by (simp add: lookupCache_def)
next
  case False
  obtain mc r1 where m: "cache_get (mainCache g) key = (mc, r1)"
    by (cases "cache_get (mainCache g) key")
  obtain hc r2 where h: "cache_get (hotCache g) key = (hc, r2)"
    by (cases "cache_get (hotCache g) key")
  have r: "r1 = None" "r2 = None" and g2: "g2 = g\<lparr>mainCache := mc, hotCache := hc\<rparr>"
    using assms(1) False by (auto simp: lookupCache_def m h Let_def split: option.splits)
  have "seg_ok mc" "seg_ok hc"
    using cache_get_ok [OF assms(2), of key] cache_get_ok [OF assms(3), of key]
    by (simp_all add: m h)
  moreover have "key \<notin> fst ` set (cache_entries mc)" "key \<notin> fst ` set (cache_entries hc)"
    using cache_get_miss_fresh [OF assms(2), of key mc] cache_get_miss_fresh [OF assms(3), of key hc]
      cache_get_miss(1) [of "mainCache g" key mc] cache_get_miss(1) [of "hotCache g" key hc]
    by (simp_all add: m h r)
  ultimately show ?thesis by (simp add: g2)
qed


lemma load_local_success:
  assumes "getter g key sk d = (None, d1)" "view sk d1 = Inr val"
    and "seg_ok (mainCache g)" "seg_ok (hotCache g)"
    and "0 < cacheBytes g \<longrightarrow> key \<notin> fst ` set (cache_entries (mainCache g))"
  shows "\<exists>g1. load_local key sk (g, d, dp) = Some ((Some val, None), (g1, d1, True)) \<and>
           Stats g1 = LocalLoads_update (\<lambda>i. i + 1) (Stats g)"
proof -
  let ?g = "stat_add LocalLoads_update 1 g"
  have "\<exists>g1. populateCache ?g key val MainCache = Some g1"
  proof (cases "cacheBytes g \<le> 0")
    case True
    then show ?thesis by (simp add: populateCache_off)
  next
    case False
    then show ?thesis
      using populateCache_terminates [of ?g key MainCache val] assms(3-5)
      by (auto simp: seg_of_def)
  qed
  then obtain g1 where g1: "populateCache ?g key val MainCache = Some g1" by auto
  from populateCache_frame [OF g1] show ?thesis
    using assms(1,2) by (simp add: load_local_def getLocally_def g1)
qed

text \<open>
  The fall back to the getter on accurate segments. Take a key that is in neither
  segment, with no call for it in flight and accurate segments, for which the peer
  picker names a peer whose request fails. If the getter
  then succeeds and the sink gives its view, \<open>Get\<close> returns without error with the sink
  as the getter left it; the counters \<open>PeerErrors\<close> and \<open>LocalLoads\<close> are one higher and
  \<open>PeerLoads\<close> and \<open>LocalLoadErrs\<close> are what they were. Every sink of sinks.go gives its
  view without error.
\<close>

theorem Get_peer_error_fallback:
  assumes miss: "lookupCache g key = (g2, v0, False)"
    and pick: "Group_peers pp g = Some pk" "pk key = Some peer"
    and rpc: "peer (name g) key = Inl e"
    and loader: "getter g key sk d = (None, d1)" "view sk d1 = Inr val"
    and idle: "idle (loadGroup g) key"
    and ok: "seg_ok (mainCache g)" "seg_ok (hotCache g)"
  shows "\<exists>g'. Group_Get g pp intn key (Some (sk, d)) = Some (None, Some (sk, d1), g') \<and>
      PeerErrors (Stats g') = PeerErrors (Stats g) + 1 \<and>
      LocalLoads (Stats g') = LocalLoads (Stats g) + 1 \<and>
      PeerLoads (Stats g') = PeerLoads (Stats g) \<and>
      LocalLoadErrs (Stats g') = LocalLoadErrs (Stats g)"
proof -
  define h where "h = (entered pp g)\<lparr>mainCache := mainCache g2, hotCache := hotCache g2\<rparr>"
  have look: "lookupCache (entered pp g) key = (h, v0, False)"
    using lookupCache_frame [of "entered pp g" g key] by (simp add: entered_fields miss h_def)
  have h1: "peers h = Some pk" "name h = name g" "getter h = getter g"
    "mainCache h = mainCache g2" "hotCache h = hotCache g2" "cacheBytes h = cacheBytes g"
    "Stats h = Gets_update (\<lambda>i. i + 1) (Stats g)"
    by (simp_all add: h_def entered_fields pick)
  have idle': "idle (loadGroup h) key" using idle by (simp add: h_def entered_fields)
  let ?h2 = "stat_add PeerErrors_update 1 (stat_add LoadsDeduped_update 1 (stat_add Loads_update 1 h))"
  have fn: "load_fn intn key sk (stat_add Loads_update 1 h, d, False) =
              load_local key sk (?h2, d, False)"
    by (rule load_fn_peer_error [where pk = pk and peer = peer and e = e])
      (simp_all add: h1 pick rpc)
  note L = lookupCache_miss_ok [OF miss ok]
  from load_local_success [of ?h2 key sk d d1 val False] loader L
  obtain g1 where g1: "load_local key sk (?h2, d, False) = Some ((Some val, None), (g1, d1, True))"
    and st: "Stats g1 = LocalLoads_update (\<lambda>i. i + 1) (Stats ?h2)"
    by (auto simp: h1)
  show ?thesis
    by (simp add: Group_Get_unfold look load_idle [OF idle'] fn g1 Let_def st h1)
qed


lemma newGroup_fields:
  "cacheBytes (newGroup nm cb gt pk) = cb"
  "peers (newGroup nm cb gt pk) = pk"
  "peersOnce (newGroup nm cb gt pk) = False"
  "name (newGroup nm cb gt pk) = nm"
  "getter (newGroup nm cb gt pk) = gt"
  "idle (loadGroup (newGroup nm cb gt pk)) key"
  "seg_ok (mainCache (newGroup nm cb gt pk))"
  "seg_ok (hotCache (newGroup nm cb gt pk))"
  "cache_entries (mainCache (newGroup nm cb gt pk)) = []"
  "cache_entries (hotCache (newGroup nm cb gt pk)) = []"
  "nbytes (mainCache (newGroup nm cb gt pk)) = 0"
  "nbytes (hotCache (newGroup nm cb gt pk)) = 0"
  "Stats (newGroup nm cb gt pk) = \<lparr>Gets = 0, CacheHits = 0, PeerLoads = 0, PeerErrors = 0, Loads = 0,
               LoadsDeduped = 0, LocalLoads = 0, LocalLoadErrs = 0, ServerRequests = 0\<rparr>"
  by (simp_all add: newGroup_def idle_def new_seg_ok cache_entries_def)

lemma newGroup_miss:
  "\<exists>g2 v0. lookupCache (newGroup nm cb gt pk) key = (g2, v0, False)"
  by (simp add: lookupCache_def newGroup_def cache_get_def Let_def)

theorem Get_loader_error_witness:
  "\<exists>g'. Group_Get (newGroup ''g'' 5 erring_getter None) None 0 ''k''
            (Some (stringSink, ([], \<lparr>b = None, s = []\<rparr>)))
          = Some (Some (ErrorString ''no such key''),
                  Some (stringSink, ([], \<lparr>b = None, s = []\<rparr>)), g') \<and>
        LocalLoadErrs (Stats g') = 1 \<and>
        cache_entries (mainCache g') = [] \<and> nbytes (mainCache g') = 0 \<and>
        cache_entries (hotCache g') = [] \<and> nbytes (hotCache g') = 0"
proof -
  let ?G = "newGroup ''g'' 5 erring_getter None :: (string \<times> ByteView) Group"
  obtain g2 v0 where miss: "lookupCache ?G ''k'' = (g2, v0, False)"
    using newGroup_miss by blast
  have pick: "Group_peers None ?G = Some NoPeers"
    by (simp add: Group_peers_def initPeers_def getPeers_def newGroup_fields)
  have local: "NoPeers ''k'' = None \<or>
      (\<exists>peer e'. NoPeers ''k'' = Some peer \<and> peer (name ?G) ''k'' = Inl e')"
    by (simp add: NoPeers_def)
  have fail: "getter ?G ''k'' stringSink ([], \<lparr>b = None, s = []\<rparr>)
                = (Some (ErrorString ''no such key''), ([], \<lparr>b = None, s = []\<rparr>))"
    by (simp add: newGroup_fields erring_getter_def)
  show ?thesis
    using Get_loader_error [OF miss pick local fail newGroup_fields(6), of 0]
    by (simp add: newGroup_fields)
qed

theorem Get_peer_error_fallback_witness:
  "\<exists>g'. Group_Get (newGroup ''g'' 5 prefix_getter (Some (\<lambda>key. Some dead_peer))) None 0 ''k''
            (Some (stringSink, ([], \<lparr>b = None, s = []\<rparr>)))
          = Some (None, Some (stringSink, (''v:k'', \<lparr>b = None, s = ''v:k''\<rparr>)), g') \<and>
        PeerErrors (Stats g') = 1 \<and> LocalLoads (Stats g') = 1 \<and>
        PeerLoads (Stats g') = 0 \<and> LocalLoadErrs (Stats g') = 0"
proof -
  let ?G = "newGroup ''g'' 5 prefix_getter (Some (\<lambda>key. Some dead_peer))
              :: (string \<times> ByteView) Group"
  obtain g2 v0 where miss: "lookupCache ?G ''k'' = (g2, v0, False)"
    using newGroup_miss by blast
  have pick: "Group_peers None ?G = Some (\<lambda>key. Some dead_peer)"
    by (simp add: Group_peers_def initPeers_def newGroup_fields)
  have rpc: "dead_peer (name ?G) ''k'' = Inl (ErrorString ''connection refused'')"
    by (simp add: dead_peer_def)
  have loader: "getter ?G ''k'' stringSink ([], \<lparr>b = None, s = []\<rparr>)
                = (None, (''v:k'', \<lparr>b = None, s = ''v:k''\<rparr>))"
    "view stringSink (''v:k'', \<lparr>b = None, s = ''v:k''\<rparr>) = Inr \<lparr>b = None, s = ''v:k''\<rparr>"
    by (simp_all add: newGroup_fields prefix_getter_def stringSink_def stringSink_SetString_def)
  show ?thesis
    using Get_peer_error_fallback [OF miss pick refl rpc loader newGroup_fields(6)
        newGroup_fields(7) newGroup_fields(8), of 0]
    by (simp add: newGroup_fields)
qed

text \<open>
  C6. A failing request to the peer adds one to \<open>PeerErrors\<close> and the closure goes on to
  the getter (lemma \<open>load_fn_peer_error\<close>), but \<open>Get\<close> does not always succeed when the
  getter does. In the group that the two racing calls of \<open>Get\<close> for \<open>a\<close> leave, the hot
  segment is empty with \<open>nbytes = 4\<close> (C3). A \<open>Get\<close> of the key \<open>c\<close> misses, no call for \<open>c\<close>
  is in flight, the picker names the peer, the request fails, and the getter succeeds
  with the value \<open>v:c\<close>. The closure then calls \<open>populateCache\<close>, whose loop does not end
  (C1), so \<open>Get\<close> never returns.
\<close>

theorem Get_peer_error_spins:
  "raced_group \<noteq> None \<and>
   Group_peers None (the raced_group) = Some remote_picker \<and>
   remote_picker ''c'' = Some half_dead_peer \<and>
   half_dead_peer (name (the raced_group)) ''c'' = Inl (ErrorString ''connection refused'') \<and>
   getLocally (the raced_group) ''c'' stringSink ([], \<lparr>b = None, s = []\<rparr>)
     = (Inr \<lparr>b = None, s = ''v:c''\<rparr>, (''v:c'', \<lparr>b = None, s = ''v:c''\<rparr>)) \<and>
   idle (loadGroup (the raced_group)) ''c'' \<and>
   snd (snd (lookupCache (the raced_group) ''c'')) = False \<and>
   Group_Get (the raced_group) None 1 ''c'' (Some (stringSink, ([], \<lparr>b = None, s = []\<rparr>))) = None"
proof -
  define G where "G = the raced_group"
  define d0 :: "string \<times> ByteView" where "d0 = ([], \<lparr>b = None, s = []\<rparr>)"
  define v where "v = \<lparr>b = None, s = ''v:c''\<rparr>"
  define H where "H = fst (lookupCache (entered None G) ''c'')"
  define H2 where "H2 = stat_add LocalLoads_update 1 (stat_add PeerErrors_update 1
     (stat_add LoadsDeduped_update 1 (stat_add Loads_update 1 H)))"
  have race: "raced_group \<noteq> None"
    by (simp add: race_defs)
  have pick: "Group_peers None G = Some remote_picker" "remote_picker ''c'' = Some half_dead_peer"
    and rpc: "half_dead_peer (name G) ''c'' = Inl (ErrorString ''connection refused'')"
    and loader: "getLocally G ''c'' stringSink d0 = (Inr v, (''v:c'', v))"
    and idle: "idle (loadGroup G) ''c''"
    and miss: "snd (snd (lookupCache G ''c'')) = False"
    unfolding G_def d0_def v_def by (simp_all add: race_defs Group_peers_def idle_def)
  have look: "lookupCache (entered None G) ''c'' = (H, \<lparr>b = None, s = []\<rparr>, False)"
    unfolding G_def H_def by (simp add: race_defs)
  have H: "peers H = Some remote_picker" "name H = name G" "getter H = getter G"
    "idle (loadGroup H) ''c''" "cacheBytes H = 5"
    unfolding G_def H_def by (simp_all add: race_defs idle_def)
  have fn: "load_fn 1 ''c'' stringSink (stat_add Loads_update 1 H, d0, False) =
      load_local ''c'' stringSink
        (stat_add PeerErrors_update 1 (stat_add LoadsDeduped_update 1 (stat_add Loads_update 1 H)),
         d0, False)"
    by (rule load_fn_peer_error [where pk = remote_picker and peer = half_dead_peer])
      (simp_all add: H pick rpc stat_add_def)
  have segs: "cache_bytes (cache_add (mainCache H) ''c'' v) = 4" "cache_bytes (hotCache H) = 4"
    "cache_removeOldest (hotCache H) = hotCache H"
    unfolding G_def H_def v_def by (simp_all add: race_defs)
  have "populateCache H2 ''c'' v MainCache
          = evictLoop (H2\<lparr>mainCache := cache_add (mainCache H) ''c'' v\<rparr>)"
    by (simp add: populateCache_def H2_def H)
  also have "\<dots> = None"
    by (rule evictLoop_stuck) (simp_all add: H2_def H segs go_div_def)
  finally have spin: "populateCache H2 ''c'' v MainCache = None" .
  have "getLocally (stat_add PeerErrors_update 1 (stat_add LoadsDeduped_update 1
          (stat_add Loads_update 1 H))) ''c'' stringSink d0 = (Inr v, (''v:c'', v))"
    using loader by (simp add: getLocally_def H)
  then have "load_local ''c'' stringSink
        (stat_add PeerErrors_update 1 (stat_add LoadsDeduped_update 1 (stat_add Loads_update 1 H)),
         d0, False) = None"
    using spin by (simp add: load_local_def H2_def)
  then have "load H 1 ''c'' stringSink d0 = None"
    by (simp add: load_idle [OF H(4)] fn)
  then have "Group_Get G None 1 ''c'' (Some (stringSink, d0)) = None"
    by (simp add: Group_Get_unfold look)
  then show ?thesis
    using race pick rpc loader idle miss unfolding G_def d0_def v_def by simp
qed

theorem zero_budget_bypasses_cache_witness:
  "lookupCache (newGroup ''g'' 0 prefix_getter None :: (string \<times> ByteView) Group) ''k''
     = (newGroup ''g'' 0 prefix_getter None, \<lparr>b = None, s = []\<rparr>, False) \<and>
   populateCache (newGroup ''g'' 0 prefix_getter None :: (string \<times> ByteView) Group) ''k''
       \<lparr>b = None, s = ''v:k''\<rparr> MainCache
     = Some (newGroup ''g'' 0 prefix_getter None) \<and>
   (\<exists>e1 d1 g1. Group_Get (newGroup ''g'' 0 prefix_getter None) None 0 ''k''
                  (Some (stringSink, ([], \<lparr>b = None, s = []\<rparr>))) = Some (e1, d1, g1) \<and>
      mainCache g1 = mainCache (newGroup ''g'' 0 prefix_getter None :: (string \<times> ByteView) Group) \<and>
      hotCache g1 = hotCache (newGroup ''g'' 0 prefix_getter None :: (string \<times> ByteView) Group) \<and>
      Loads (Stats g1) = 1 \<and> LoadsDeduped (Stats g1) = 1)"
proof -
  let ?G = "newGroup ''g'' 0 prefix_getter None :: (string \<times> ByteView) Group"
  let ?dest = "Some (stringSink, ([], \<lparr>b = None, s = []\<rparr>))"
  have off: "cacheBytes ?G \<le> 0" by (simp add: newGroup_fields)
  note T = zero_budget_bypasses_cache [OF off, of "''k''" _ MainCache None 0 ?dest]
  have "\<exists>e1 d1 g1. Group_Get ?G None 0 ''k'' ?dest = Some (e1, d1, g1) \<and>
          LoadsDeduped (Stats g1) = LoadsDeduped (Stats ?G) + 1"
    using T [of undefined] by (simp add: newGroup_fields)
  then obtain e1 d1 g1 where g: "Group_Get ?G None 0 ''k'' ?dest = Some (e1, d1, g1)"
    and dd: "LoadsDeduped (Stats g1) = 1" by (auto simp: newGroup_fields)
  have "mainCache g1 = mainCache ?G \<and> hotCache g1 = hotCache ?G \<and> Loads (Stats g1) = 1"
    using zero_budget_bypasses_cache [OF off, of "''k''" undefined MainCache None 0 ?dest e1 d1 g1] g
    by (simp add: newGroup_fields)
  then show ?thesis
    using T [of "\<lparr>b = None, s = ''v:k''\<rparr>"] g dd by simp
qed


section \<open>Properties of the hash ring\<close>

lemma Search_loop_least:
  assumes "i \<le> j" "j \<le> n"
    and "\<And>k. k < i \<Longrightarrow> \<not> f k"
    and "\<And>k. j \<le> k \<Longrightarrow> k < n \<Longrightarrow> f k"
    and mono: "\<And>a c. a \<le> c \<Longrightarrow> c < n \<Longrightarrow> f a \<Longrightarrow> f c"
  shows "Search_loop f i j \<le> n \<and>
         (\<forall>k < Search_loop f i j. \<not> f k) \<and>
         (\<forall>k. Search_loop f i j \<le> k \<and> k < n \<longrightarrow> f k)"
  using assms
proof (induction f i j rule: Search_loop.induct)
  case (1 f i j)
  show ?case
  proof (cases "i < j")
    case False
    then have "Search_loop f i j = i" by (subst Search_loop.simps) simp
    moreover have "i = j" using False "1.prems"(1) by simp
    ultimately show ?thesis using "1.prems"(2-4) by auto
  next
    case True
    define h where "h = (i + j) div 2"
    have h: "i \<le> h" "h < j" using True by (auto simp: h_def)
    show ?thesis
    proof (cases "f h")
      case False
      have eq: "Search_loop f i j = Search_loop f (h + 1) j"
        using True False by (subst Search_loop.simps) (simp add: Let_def h_def)
      have "Search_loop f (h + 1) j \<le> n \<and>
         (\<forall>k < Search_loop f (h + 1) j. \<not> f k) \<and>
         (\<forall>k. Search_loop f (h + 1) j \<le> k \<and> k < n \<longrightarrow> f k)"
      proof (rule "1.IH"(1) [OF True h_def False])
        show "h + 1 \<le> j" using h by simp
        show "j \<le> n" by (rule "1.prems"(2))
        show "\<And>k. k < h + 1 \<Longrightarrow> \<not> f k"
        proof
          fix k assume k: "k < h + 1" and fk: "f k"
          have "f h" using "1.prems"(5) [of k h] k fk h "1.prems"(2) by simp
          with False show False by simp
        qed
        show "\<And>k. j \<le> k \<Longrightarrow> k < n \<Longrightarrow> f k" by (rule "1.prems"(4))
        show "\<And>a c. a \<le> c \<Longrightarrow> c < n \<Longrightarrow> f a \<Longrightarrow> f c" by (rule "1.prems"(5))
      qed
      then show ?thesis unfolding eq .
    next
      case fh: True
      have eq: "Search_loop f i j = Search_loop f i h"
        using True fh by (subst Search_loop.simps) (simp add: Let_def h_def)
      have "Search_loop f i h \<le> n \<and>
         (\<forall>k < Search_loop f i h. \<not> f k) \<and>
         (\<forall>k. Search_loop f i h \<le> k \<and> k < n \<longrightarrow> f k)"
      proof (rule "1.IH"(2) [OF True h_def])
        show "\<not> \<not> f h" using fh by simp
        show "i \<le> h" using h by simp
        show "h \<le> n" using h "1.prems"(2) by simp
        show "\<And>k. k < i \<Longrightarrow> \<not> f k" by (rule "1.prems"(3))
        show "\<And>k. h \<le> k \<Longrightarrow> k < n \<Longrightarrow> f k"
          using "1.prems"(5) fh by blast
        show "\<And>a c. a \<le> c \<Longrightarrow> c < n \<Longrightarrow> f a \<Longrightarrow> f c" by (rule "1.prems"(5))
      qed
      then show ?thesis unfolding eq .
    qed
  qed
qed

lemma Search_least:
  assumes mono: "\<And>a c. a \<le> c \<Longrightarrow> c < n \<Longrightarrow> f a \<Longrightarrow> f c"
  shows "Search n f \<le> n \<and> (\<forall>k < Search n f. \<not> f k) \<and> (Search n f < n \<longrightarrow> f (Search n f))"
  using Search_loop_least [of 0 n n f] mono by (auto simp: Search_def)


lemma Add_replica_hash [simp]: "hash (Add_replica p i m) = hash m"
  by (simp add: Add_replica_def Let_def)

lemma fold_Add_replica:
  "fold (Add_replica p) js m =
     m\<lparr>keys := keys m @ map (\<lambda>i. uint (hash m (Itoa i @ p))) js,
       hashMap := hashMap m ++ map_of (rev (map (\<lambda>i. (uint (hash m (Itoa i @ p)), p)) js))\<rparr>"
proof (induction js arbitrary: m)
  case Nil
  show ?case by simp
next
  case (Cons j js)
  show ?case
    by (simp add: Cons.IH) (simp add: Add_replica_def Let_def map_add_def fun_eq_iff split: option.splits)
qed

lemma fold_Add_peers:
  "fold (\<lambda>key. fold (Add_replica key) js) ps m =
     m\<lparr>keys := keys m @ map fst (concat (map (\<lambda>p. map (\<lambda>i. (uint (hash m (Itoa i @ p)), p)) js) ps)),
       hashMap := hashMap m ++
          map_of (rev (concat (map (\<lambda>p. map (\<lambda>i. (uint (hash m (Itoa i @ p)), p)) js) ps)))\<rparr>"
proof (induction ps arbitrary: m)
  case Nil
  show ?case by simp
next
  case (Cons p ps)
  define m1 where "m1 = fold (Add_replica p) js m"
  have m1: "m1 = m\<lparr>keys := keys m @ map (\<lambda>i. uint (hash m (Itoa i @ p))) js,
       hashMap := hashMap m ++ map_of (rev (map (\<lambda>i. (uint (hash m (Itoa i @ p)), p)) js))\<rparr>"
    unfolding m1_def by (rule fold_Add_replica)
  have "fold (\<lambda>key. fold (Add_replica key) js) (p # ps) m
          = fold (\<lambda>key. fold (Add_replica key) js) ps m1"
    by (simp add: m1_def)
  also note Cons.IH
  finally show ?case
    by (simp add: m1 comp_def)
qed


lemma Map_Add_New:
  "Map_Add (New crc n fn) ps =
     \<lparr>hash = ring_hash crc fn, replicas = n,
      keys = sort (map fst (ring_points (ring_hash crc fn) n ps)),
      hashMap = map_of (rev (ring_points (ring_hash crc fn) n ps))\<rparr>"
proof (cases "ps = []")
  case True
  then show ?thesis by (simp add: Map_Add_def New_def ring_points_def ring_hash_def)
next
  case False
  then show ?thesis
    by (simp add: Map_Add_def Let_def fold_Add_peers)
      (simp add: New_def ring_points_def ring_hash_def)
qed

lemma map_insort_key: "map f (insort_key f x ys) = insort (f x) (map f ys)"
  by (induction ys) simp_all

lemma map_fst_sort_key: "map fst (sort_key fst xs) = sort (map fst xs)"
  by (induction xs) (simp_all add: map_insort_key)

lemma sort_rev: "sort (rev xs) = sort (xs :: int list)"
  by (rule properties_for_sort) simp_all

lemma find_first_index:
  assumes "i < length xs" "P (xs ! i)" "\<And>k. k < i \<Longrightarrow> \<not> P (xs ! k)"
  shows "List.find P xs = Some (xs ! i)"
  using assms by (auto simp: find_Some_iff)

lemma find_filter_hd:
  "List.find P xs = (case filter P xs of [] \<Rightarrow> None | x # _ \<Rightarrow> Some x)"
  by (induction xs) simp_all

lemma map_of_find:
  "map_of xs k = map_option snd (List.find (\<lambda>e. fst e = k) xs)"
  by (induction xs) auto

lemma map_of_first_in_sorted:
  fixes pts :: "(int \<times> string) list"
  defines "ring \<equiv> sort_key fst (rev pts)"
  assumes "i < length ring" "\<And>k. k < i \<Longrightarrow> fst (ring ! k) \<noteq> fst (ring ! i)"
  shows "map_of (rev pts) (fst (ring ! i)) = Some (snd (ring ! i))"
proof -
  let ?k = "fst (ring ! i)"
  have "List.find (\<lambda>e. fst e = ?k) ring = Some (ring ! i)"
    using assms(2,3) by (intro find_first_index) simp_all
  moreover have "filter (\<lambda>e. fst e = ?k) ring = filter (\<lambda>e. fst e = ?k) (rev pts)"
    unfolding ring_def by (rule sort_key_stable)
  ultimately have "List.find (\<lambda>e. fst e = ?k) (rev pts) = Some (ring ! i)"
    by (simp add: find_filter_hd)
  then show ?thesis by (simp add: map_of_find)
qed

text \<open>
  C4. Take the ring that \<open>New\<close> and one \<open>Add\<close> of the peers build, and let the virtual
  points be the pairs \<open>(hash(Itoa i @ peer), peer)\<close> for every peer and every \<open>i\<close> in
  \<open>[0, replicas)\<close>. The keys of the ring are the hashes of these points in ascending
  order. \<open>Get\<close> hashes the key and returns the peer of the first point, in a list of
  the points sorted by hash, whose hash is at least that of the key; it returns the peer
  of the first point of the list when there is no such point, and the empty string when
  the ring has no point. Among points with the same hash the list has the one made last
  first: the map from hash to peer keeps one peer for a hash, the one written last, so a
  later point takes the place of an earlier one with its hash.
\<close>

theorem Map_Get_pick:
  "keys (Map_Add (New crc n fn) ps)
     = map fst (sort_key fst (rev (ring_points (ring_hash crc fn) n ps))) \<and>
   sorted (map fst (sort_key fst (rev (ring_points (ring_hash crc fn) n ps)))) \<and>
   mset (sort_key fst (rev (ring_points (ring_hash crc fn) n ps)))
     = mset (ring_points (ring_hash crc fn) n ps) \<and>
   Map_Get (Map_Add (New crc n fn) ps) key
     = pick_spec (sort_key fst (rev (ring_points (ring_hash crc fn) n ps)))
         (uint (ring_hash crc fn key))"
proof -
  define hf where "hf = ring_hash crc fn"
  define pts where "pts = ring_points hf n ps"
  define ring where "ring = sort_key fst (rev pts)"
  define ks where "ks = map fst ring"
  define h where "h = uint (hf key)"
  have m: "Map_Add (New crc n fn) ps =
      \<lparr>hash = hf, replicas = n, keys = ks, hashMap = map_of (rev pts)\<rparr>"
    by (simp add: Map_Add_New hf_def pts_def ks_def ring_def map_fst_sort_key sort_rev rev_map [symmetric])
  have srt: "sorted ks" by (simp add: ks_def ring_def)
  have len: "length ks = length ring" by (simp add: ks_def)
  have nth: "\<And>i. i < length ring \<Longrightarrow> ks ! i = fst (ring ! i)" by (simp add: ks_def)
  have get: "Map_Get (Map_Add (New crc n fn) ps) key = pick_spec ring h"
  proof (cases "ring = []")
    case True
    then show ?thesis by (simp add: m Map_Get_def IsEmpty_def ks_def pick_spec_def)
  next
    case False
    then have pos: "0 < length ring" by simp
    define idx where "idx = Search (length ks) (\<lambda>i. ks ! i \<ge> h)"
    have mono: "\<And>a c. a \<le> c \<Longrightarrow> c < length ks \<Longrightarrow> h \<le> ks ! a \<Longrightarrow> h \<le> ks ! c"
      using srt sorted_nth_mono by fastforce
    have S: "idx \<le> length ks \<and> (\<forall>k < idx. \<not> h \<le> ks ! k) \<and> (idx < length ks \<longrightarrow> h \<le> ks ! idx)"
      unfolding idx_def by (rule Search_least) (rule mono)
    define idx1 where "idx1 = (if idx = length ks then 0 else idx)"
    have code: "Map_Get (Map_Add (New crc n fn) ps) key =
        (case map_of (rev pts) (ks ! idx1) of None \<Rightarrow> [] | Some node \<Rightarrow> node)"
      using False
      by (simp add: m Map_Get_def IsEmpty_def len Let_def h_def idx_def idx1_def)
    show ?thesis
    proof (cases "idx = length ks")
      case True
      then have none: "\<And>k. k < length ring \<Longrightarrow> \<not> h \<le> fst (ring ! k)"
        using S nth len by auto
      have "List.find (\<lambda>e. h \<le> fst e) ring = None"
        unfolding find_None_iff in_set_conv_nth using none by blast
      then have spec: "pick_spec ring h = snd (ring ! 0)"
        using False by (cases ring) (simp_all add: pick_spec_def)
      have "map_of (rev pts) (fst (ring ! 0)) = Some (snd (ring ! 0))"
        unfolding ring_def by (rule map_of_first_in_sorted) (use pos in \<open>simp_all add: ring_def\<close>)
      then show ?thesis using True pos by (simp add: code idx1_def nth spec)
    next
      case False
      then have lt: "idx < length ring" using S len by simp
      have hit: "h \<le> fst (ring ! idx)" using S lt nth len by auto
      have before: "\<And>k. k < idx \<Longrightarrow> \<not> h \<le> fst (ring ! k)"
        using S lt nth by auto
      have "List.find (\<lambda>e. h \<le> fst e) ring = Some (ring ! idx)"
        using lt hit before by (intro find_first_index) simp_all
      then have spec: "pick_spec ring h = snd (ring ! idx)" by (simp add: pick_spec_def)
      have "map_of (rev pts) (fst (ring ! idx)) = Some (snd (ring ! idx))"
        unfolding ring_def
      proof (rule map_of_first_in_sorted)
        show "idx < length (sort_key fst (rev pts))" using lt by (simp add: ring_def)
        fix k assume "k < idx"
        then have "fst (ring ! k) < h" using before [of k] by simp
        then show "fst (sort_key fst (rev pts) ! k) \<noteq> fst (sort_key fst (rev pts) ! idx)"
          using hit by (simp add: ring_def)
      qed
      then show ?thesis using False lt by (simp add: code idx1_def nth spec)
    qed
  qed
  have perm: "mset ring = mset pts" by (simp add: ring_def)
  show ?thesis
    using get m srt perm
    by (simp add: hf_def [symmetric] pts_def [symmetric] ring_def [symmetric] h_def ks_def)
qed

text \<open>
  C4, as stated, has \<open>Get\<close> return the peer of the lowest entry of the sorted list of
  points, in which points with the same hash stand in the order in which they are made.
  With a hash that maps everything to 7, one replica and the peers \<open>A\<close> and \<open>B\<close>, the
  points are \<open>(7, A)\<close> and \<open>(7, B)\<close>, and the lowest entry at or above the hash 7 of the key
  is \<open>(7, A)\<close>. \<open>Get\<close> returns \<open>B\<close>: \<open>Add\<close> wrote \<open>hashMap[7] = A\<close> and then
  \<open>hashMap[7] = B\<close>.
\<close>

theorem Map_Get_collision_counterexample:
  "ring_points (ring_hash const_hash None) 1 [''A'', ''B''] = [(7, ''A''), (7, ''B'')] \<and>
   sort_key fst (ring_points (ring_hash const_hash None) 1 [''A'', ''B'']) = [(7, ''A''), (7, ''B'')] \<and>
   uint (ring_hash const_hash None ''k'') = 7 \<and>
   pick_spec (sort_key fst (ring_points (ring_hash const_hash None) 1 [''A'', ''B'']))
     (uint (ring_hash const_hash None ''k'')) = ''A'' \<and>
   Map_Get (Map_Add (New const_hash 1 None) [''A'', ''B'']) ''k'' = ''B''"
  by (simp add: ring_points_def ring_hash_def const_hash_def pick_spec_def Map_Get_def Map_Add_def
      New_def Add_replica_def IsEmpty_def Search_def Search_loop.simps Let_def upto.simps)


section \<open>Properties of the table of known peers\<close>

lemma prune_step_live:
  "fst (prune_step ps now a acc) =
     fst acc @ (if a \<noteq> selfGroupcacheAddr ps \<and> is_fresh ps now a then [a] else [])"
  by (cases acc) (simp add: prune_step_def is_fresh_def split: option.splits)

lemma prune_step_upd:
  "fst (snd (prune_step ps now a acc)) =
     (if PeerStore.peers ps a \<noteq> None \<and> (a = selfGroupcacheAddr ps \<or> is_fresh ps now a)
      then (fst (snd acc))(a := PeerStore.peers ps a) else fst (snd acc))"
  by (cases acc) (auto simp: prune_step_def is_fresh_def split: option.splits)

lemma fold_prune_live:
  "fst (fold (prune_step ps now) order acc) =
     fst acc @ filter (\<lambda>a. a \<noteq> selfGroupcacheAddr ps \<and> is_fresh ps now a) order"
  by (induction order arbitrary: acc) (simp_all add: prune_step_live)

lemma fold_prune_upd:
  "fst (snd (fold (prune_step ps now) order acc)) a =
     (if a \<in> set order \<and> PeerStore.peers ps a \<noteq> None \<and>
         (a = selfGroupcacheAddr ps \<or> is_fresh ps now a)
      then PeerStore.peers ps a else fst (snd acc) a)"
  by (induction order arbitrary: acc) (auto simp: prune_step_upd)

text \<open>
  C8, as amended. Let \<open>range\<close> visit every address of the table once. The call keeps
  the entry of this peer itself, whatever its age, and drops exactly the entries of other
  peers for which \<open>time.Since(LastSeen)\<close> is at least the timeout: an entry that is
  exactly as old as the timeout is dropped. No entry is added or changed. The list it
  returns is sorted, has no address twice and holds exactly the addresses of the other
  peers that are kept; the address of this peer is not in it.
\<close>

theorem prune_drops_stale:
  assumes "set order = dom (PeerStore.peers ps)" "distinct order"
    and "GetLivePeerGroupcacheAddrsAndPrune ps now order = (ps', live)"
  shows "(PeerStore.peers ps addr = Some e \<longrightarrow>
           PeerStore.peers ps' addr =
             (if addr \<noteq> selfGroupcacheAddr ps \<and> peerTimeoutDuration ps \<le> now addr - LastSeen e
              then None else Some e)) \<and>
         (PeerStore.peers ps addr = None \<longrightarrow> PeerStore.peers ps' addr = None) \<and>
         (addr \<in> set live \<longleftrightarrow>
            addr \<noteq> selfGroupcacheAddr ps \<and>
            (\<exists>e. PeerStore.peers ps addr = Some e \<and> now addr - LastSeen e < peerTimeoutDuration ps)) \<and>
         sorted live \<and> distinct live"
proof -
  let ?r = "fold (prune_step ps now) order ([], Map.empty, 0)"
  have ps': "PeerStore.peers ps' = fst (snd ?r)" and live: "live = sort (fst ?r)"
    using assms(3) by (auto simp: GetLivePeerGroupcacheAddrsAndPrune_def split: prod.splits)
  have mem: "\<And>a. a \<in> set order \<longleftrightarrow> PeerStore.peers ps a \<noteq> None"
    using assms(1) by auto
  have fresh: "\<And>a. is_fresh ps now a \<longleftrightarrow>
      (\<exists>e. PeerStore.peers ps a = Some e \<and> now a - LastSeen e < peerTimeoutDuration ps)"
    by (simp add: is_fresh_def split: option.splits)
  have 1: "PeerStore.peers ps addr = Some e \<longrightarrow>
           PeerStore.peers ps' addr =
             (if addr \<noteq> selfGroupcacheAddr ps \<and> peerTimeoutDuration ps \<le> now addr - LastSeen e
              then None else Some e)"
    by (auto simp: ps' fold_prune_upd mem fresh)
  have 2: "PeerStore.peers ps addr = None \<longrightarrow> PeerStore.peers ps' addr = None"
    by (simp add: ps' fold_prune_upd)
  have 3: "addr \<in> set live \<longleftrightarrow>
            addr \<noteq> selfGroupcacheAddr ps \<and>
            (\<exists>e. PeerStore.peers ps addr = Some e \<and> now addr - LastSeen e < peerTimeoutDuration ps)"
    by (auto simp: live fold_prune_live mem fresh)
  have 4: "sorted live" "distinct live"
    using assms(2) by (simp_all add: live fold_prune_live)
  show ?thesis using 1 2 3 4 by blast
qed

theorem prune_drops_stale_witness:
  "PeerStore.peers (fst (GetLivePeerGroupcacheAddrsAndPrune example_store (at_time 20) [''me'', ''p'']))
     ''p'' = None \<and>
   PeerStore.peers (fst (GetLivePeerGroupcacheAddrsAndPrune example_store (at_time 20) [''me'', ''p'']))
     ''me'' = PeerStore.peers example_store ''me'' \<and>
   PeerStore.peers (fst (GetLivePeerGroupcacheAddrsAndPrune example_store (at_time 20) [''me'', ''p'']))
     ''q'' = None \<and>
   ''p'' \<notin> set (snd (GetLivePeerGroupcacheAddrsAndPrune example_store (at_time 20) [''me'', ''p''])) \<and>
   ''me'' \<notin> set (snd (GetLivePeerGroupcacheAddrsAndPrune example_store (at_time 20) [''me'', ''p''])) \<and>
   PeerStore.peers (fst (GetLivePeerGroupcacheAddrsAndPrune example_store (at_time 14) [''p'', ''me'']))
     ''p'' = PeerStore.peers example_store ''p'' \<and>
   ''p'' \<in> set (snd (GetLivePeerGroupcacheAddrsAndPrune example_store (at_time 14) [''p'', ''me'']))"
proof -
  let ?e = "\<lparr>GroupcacheAddress = ''p'', ApiAddress = ''p-api'', LastSeen = 0\<rparr>"
  let ?me = "\<lparr>GroupcacheAddress = ''me'', ApiAddress = ''me-api'', LastSeen = 0\<rparr>"
  have d: "set [''me'', ''p''] = dom (PeerStore.peers example_store)"
    "set [''p'', ''me''] = dom (PeerStore.peers example_store)"
    by (auto simp: example_store_def)
  have p: "PeerStore.peers example_store ''p'' = Some ?e"
    "PeerStore.peers example_store ''me'' = Some ?me"
    "PeerStore.peers example_store ''q'' = None"
    "selfGroupcacheAddr example_store = ''me''" "peerTimeoutDuration example_store = 15"
    by (simp_all add: example_store_def)
  note A = prune_drops_stale [where now = "at_time 20", OF d(1) _ surjective_pairing]
  note B = prune_drops_stale [where now = "at_time 14", OF d(2) _ surjective_pairing]
  show ?thesis
    using A [where addr = "''p''" and e = ?e] A [where addr = "''me''" and e = ?me]
      A [where addr = "''q''" and e = ?e] B [where addr = "''p''" and e = ?e]
    by (simp add: p at_time_def)
qed

text \<open>
  C8, as stated, has the entries dropped whose age is above the timeout. With a timeout of
  15, the entry of the other peer, seen last at time 0, is dropped at time 15, when its
  age is 15 and not above 15.
\<close>

theorem prune_boundary_counterexample:
  "PeerStore.peers example_store ''p''
     = Some \<lparr>GroupcacheAddress = ''p'', ApiAddress = ''p-api'', LastSeen = 0\<rparr> \<and>
   ''p'' \<noteq> selfGroupcacheAddr example_store \<and>
   \<not> (at_time 15 ''p'' - 0 > peerTimeoutDuration example_store) \<and>
   PeerStore.peers (fst (GetLivePeerGroupcacheAddrsAndPrune example_store (at_time 15) [''me'', ''p'']))
     ''p'' = None"
  by (simp add: example_store_def at_time_def GetLivePeerGroupcacheAddrsAndPrune_def prune_step_def)


section \<open>Properties of the flight group\<close>


























text \<open>
  \<open>Do_seq\<close>, which the model of \<open>Get\<close> uses, is the four steps of a caller that finds
  its key absent and is not interrupted.
\<close>

lemma Do_seq_is_run:
  assumes "pcs sys t = Start" "idle (grp sys) (key_of t)"
  shows "\<exists>sys1. run key_of fn [t, t, t, t] sys = Some sys1 \<and>
           Do_seq (grp sys) (key_of t) (\<lambda>u. Some (fn t (length (runs sys)), u)) x
             = Some (fn t (length (runs sys)), grp sys1, x) \<and>
           pcs sys1 t = Returned (nextCall (grp sys)) (fst (fn t (length (runs sys))))
                          (snd (fn t (length (runs sys))))"
  using assms
  by (auto simp: step_def Do_seq_def idle_def Let_def split: option.splits)


end
